theory Spec2Isabelle
  imports Complex_Main "HOL-Library.Multiset" "HOL-Library.Product_Lexorder"
    "HOL-Library.Option_ord" "HOL-Library.Log_Nat"
begin

section \<open>Exceptions\<close>

text \<open>
  The exceptions of the model: the \<open>Error\<close> thrown without an API key, and the
  \<open>SyntaxError\<close> of \<open>JSON.parse\<close>.
\<close>

datatype error = NotConfigured | SyntaxError

section \<open>The store (db.ts)\<close>

text \<open>
  The SQLite tables of db.ts as lists of rows, in rowid order. The tables \<open>users\<close> and
  \<open>usernames\<close> play no part in the properties below and are left out.

  The column \<open>questions.options\<close> is TEXT holding a JSON array of strings; every reader
  passes it through \<open>JSON.parse\<close>. The column is modelled by what \<open>JSON.parse\<close> makes of it:
  \<open>JsonArray os\<close> when the text is the JSON of the array of the strings \<open>os\<close> (what
  \<open>JSON.stringify\<close> writes for a \<open>string[]\<close>); \<open>JsonString s\<close> when it is the JSON of
  the string \<open>s\<close>; \<open>JsonOther\<close> when it is the JSON of null, a boolean, a number or an
  object (\<open>saveQuestion\<close> stores whatever the candidate carries, and the cast of the
  model's reply to \<open>GeneratedQuestion[]\<close> checks nothing); \<open>Malformed\<close> when
  \<open>JSON.parse\<close> throws on it. A column that is NULL reads as the text \<open>null\<close>
  (\<open>JSON.parse\<close> turns its argument into a string first). The elements of an array are
  strings, as the code types them; an array with other elements is given no value of its
  own (the shuffle and \<open>indexOf\<close> do not look into the elements, so it runs through the
  debias loop as an array of strings does, up to the rendering). A string is the list of
  the bytes of its UTF-8 encoding.
\<close>

datatype options_column = JsonArray "string list" | JsonString string | JsonOther | Malformed

record question =
  q_id :: int
  study_key :: string
  question_text :: string
  options :: options_column
  correct_index :: int
  created_at :: int
  thumbs_up :: int
  thumbs_down :: int

text \<open>Table \<open>votes\<close>: \<open>vote\<close> is 1 for up, -1 for down; primary key (user_id, question_id).\<close>

record vote_row =
  v_user_id :: int
  v_question_id :: int
  vote :: int

text \<open>Table \<open>user_progress\<close> (alias \<open>up\<close> in the queries); primary key (user_id, question_id).\<close>

record progress_row =
  up_user_id :: int
  up_question_id :: int
  last_used_at :: int

text \<open>
  \<open>questions_seq\<close> is the AUTOINCREMENT counter of \<open>questions.id\<close> (SQLite's
  \<open>sqlite_sequence\<close> entry): the largest id handed out so far.
\<close>

record db =
  questions :: "question list"
  questions_seq :: int
  votes :: "vote_row list"
  user_progress :: "progress_row list"

definition empty_db :: db where
  "empty_db = \<lparr>questions = [], questions_seq = 0, votes = [], user_progress = []\<rparr>"

text \<open>\<open>UPDATE t SET ... WHERE P\<close>: every row satisfying \<open>P\<close> is rewritten, the others kept.\<close>

definition update_where :: "('r \<Rightarrow> bool) \<Rightarrow> ('r \<Rightarrow> 'r) \<Rightarrow> 'r list \<Rightarrow> 'r list" where
  "update_where P f rows = map (\<lambda>r. if P r then f r else r) rows"

text \<open>
  \<open>saveQuestion\<close>: one INSERT; the id is the next AUTOINCREMENT value, the counters take
  their DEFAULT 0, \<open>created_at\<close> the clock reading \<open>now\<close>. Nothing about \<open>opts\<close> or
  \<open>correctIndex\<close> is checked.
\<close>

definition saveQuestion ::
  "int \<Rightarrow> string \<Rightarrow> string \<Rightarrow> string list \<Rightarrow> int \<Rightarrow> db \<Rightarrow> int \<times> db" where
  "saveQuestion now studyKey question opts correctIndex d =
     (let newId = questions_seq d + 1;
          row = \<lparr>q_id = newId, study_key = studyKey, question_text = question,
                 options = JsonArray opts, correct_index = correctIndex,
                 created_at = now, thumbs_up = 0, thumbs_down = 0\<rparr>
      in (newId, d\<lparr>questions := questions d @ [row], questions_seq := newId\<rparr>))"

text \<open>\<open>clearQuestions\<close>: a single \<open>DELETE FROM questions WHERE study_key = $studyKey\<close>.\<close>

definition clearQuestions :: "string \<Rightarrow> db \<Rightarrow> db" where
  "clearQuestions studyKey d =
     d\<lparr>questions := filter (\<lambda>q. study_key q \<noteq> studyKey) (questions d)\<rparr>"

text \<open>\<open>deleteQuestion\<close>: three DELETE statements, on questions, votes and user_progress.\<close>

definition deleteQuestion :: "int \<Rightarrow> db \<Rightarrow> db" where
  "deleteQuestion questionId d =
     d\<lparr>questions := filter (\<lambda>q. q_id q \<noteq> questionId) (questions d),
       votes := filter (\<lambda>v. v_question_id v \<noteq> questionId) (votes d),
       user_progress := filter (\<lambda>p. up_question_id p \<noteq> questionId) (user_progress d)\<rparr>"

text \<open>The SELECT at the head of \<open>addVote\<close>: the vote row of (user, question), or null.\<close>

definition findVote :: "int \<Rightarrow> int \<Rightarrow> db \<Rightarrow> vote_row option" where
  "findVote userId questionId d =
     find (\<lambda>v. v_user_id v = userId \<and> v_question_id v = questionId) (votes d)"

definition addVote :: "int \<Rightarrow> int \<Rightarrow> bool \<Rightarrow> db \<Rightarrow> db" where
  "addVote userId questionId isUpvote d =
     (let voteVal = (if isUpvote then 1 else - 1) in
      case findVote userId questionId d of
        Some existing \<Rightarrow>
          if vote existing = voteVal then d
          else
            let d1 = d\<lparr>votes :=
                       update_where (\<lambda>v. v_user_id v = userId \<and> v_question_id v = questionId)
                         (\<lambda>v. v\<lparr>vote := voteVal\<rparr>) (votes d)\<rparr>
            in if isUpvote
               then d1\<lparr>questions :=
                        update_where (\<lambda>q. q_id q = questionId)
                          (\<lambda>q. q\<lparr>thumbs_up := thumbs_up q + 1, thumbs_down := thumbs_down q - 1\<rparr>)
                          (questions d1)\<rparr>
               else d1\<lparr>questions :=
                        update_where (\<lambda>q. q_id q = questionId)
                          (\<lambda>q. q\<lparr>thumbs_down := thumbs_down q + 1, thumbs_up := thumbs_up q - 1\<rparr>)
                          (questions d1)\<rparr>
      | None \<Rightarrow>
          let d1 = d\<lparr>votes := votes d @
                     [\<lparr>v_user_id = userId, v_question_id = questionId, vote = voteVal\<rparr>]\<rparr>
          in if isUpvote
             then d1\<lparr>questions :=
                      update_where (\<lambda>q. q_id q = questionId)
                        (\<lambda>q. q\<lparr>thumbs_up := thumbs_up q + 1\<rparr>) (questions d1)\<rparr>
             else d1\<lparr>questions :=
                      update_where (\<lambda>q. q_id q = questionId)
                        (\<lambda>q. q\<lparr>thumbs_down := thumbs_down q + 1\<rparr>) (questions d1)\<rparr>)"

text \<open>\<open>getQuestionStats\<close>: the counters of the row, or \<open>{thumbs_up: 0, thumbs_down: 0}\<close>.\<close>

definition getQuestionStats :: "int \<Rightarrow> db \<Rightarrow> int \<times> int" where
  "getQuestionStats questionId d =
     (case find (\<lambda>q. q_id q = questionId) (questions d) of
        Some q \<Rightarrow> (thumbs_up q, thumbs_down q)
      | None \<Rightarrow> (0, 0))"

section \<open>Rating\<close>

text \<open>
  The SQL expression of \<open>getQuestions\<close> (column \<open>rating\<close>) and of \<open>getRandomQuestion\<close>
  (column \<open>weight\<close>):
  \<open>(CAST(thumbs_up AS REAL) + 1.0) / (CAST(thumbs_up AS REAL) + CAST(thumbs_down AS REAL) + 2.0)\<close>.
  SQLite yields NULL when the divisor is zero: \<open>None\<close>. REAL is modelled by exact
  rationals, which is what the doubles compute as long as the counters stay far below
  \<open>2^53\<close>.
\<close>

definition rating :: "int \<Rightarrow> int \<Rightarrow> rat option" where
  "rating up down =
     (let divisor = of_int up + of_int down + 2
      in if divisor = 0 then None else Some ((of_int up + 1) / divisor))"

text \<open>\<open>Math.round\<close>: the nearest integer, halves rounded up.\<close>

definition js_round :: "rat \<Rightarrow> int" where
  "js_round x = \<lfloor>x + 1 / 2\<rfloor>"

text \<open>
  JavaScript numbers are IEEE 754 doubles. \<open>round_double x\<close> is the double nearest to the
  real number \<open>x\<close>, ties going to the even significand (the rounding of every arithmetic
  operation), for \<open>x\<close> in the normal range of doubles (0, or of magnitude from \<open>2^-1022\<close>
  up to \<open>2^1024\<close>): with \<open>2^e \<le> |x| < 2^(e+1)\<close> the doubles around \<open>x\<close> are the
  multiples of \<open>2^(e-52)\<close>. \<open>binade x\<close> is that \<open>e\<close>, found from the bit lengths of
  numerator and denominator.
\<close>

definition round_even :: "rat \<Rightarrow> int" where
  "round_even x =
     (let f = \<lfloor>x\<rfloor>; d = x - of_int f
      in if d < 1 / 2 then f else if 1 / 2 < d then f + 1 else if even f then f else f + 1)"

definition binade :: "rat \<Rightarrow> int" where
  "binade x =
     (let k = bitlen (fst (quotient_of x)) - bitlen (snd (quotient_of x))
      in if 2 powi k \<le> x then k else k - 1)"

definition round_double :: "rat \<Rightarrow> rat" where
  "round_double x =
     (if x = 0 then 0
      else let ulp = 2 powi (binade \<bar>x\<bar> - 52)
           in sgn x * of_int (round_even (\<bar>x\<bar> / ulp)) * ulp)"

text \<open>
  The percentage the vote handler and the answer handler of the bot show, from the pair
  that \<open>getQuestionStats\<close> returns:
  \<open>totalVotes > 0 ? Math.round((stats.thumbs_up / totalVotes) * 100) : 0\<close>.
  The counters and their sum are integers far below \<open>2^53\<close>, hence exact as doubles; the
  quotient and the product are each rounded to a double, and \<open>Math.round\<close> is exact on
  the result. The double that is rounded need not be the exact value of
  \<open>100 * thumbs_up / totalVotes\<close>: 23 up votes of 40 give 57.49999999999999, shown as 57,
  where the exact value 57.5 would be shown as 58.
\<close>

definition handler_rating :: "int \<times> int \<Rightarrow> int" where
  "handler_rating stats =
     (let totalVotes = fst stats + snd stats
      in if totalVotes > 0
         then js_round (round_double
                (round_double (of_int (fst stats) / of_int totalVotes) * 100))
         else 0)"

section \<open>Selection engine (getRandomQuestion)\<close>

text \<open>\<open>LIMIT 1\<close> with \<open>query.get\<close>: the first row of the result, or null.\<close>

definition first_row :: "'r list \<Rightarrow> 'r option" where
  "first_row rows = (case rows of [] \<Rightarrow> None | r # _ \<Rightarrow> Some r)"

text \<open>The column \<open>weight\<close> of the first query.\<close>

definition weight :: "question \<Rightarrow> rat option" where
  "weight q = rating (thumbs_up q) (thumbs_down q)"

text \<open>
  \<open>ORDER BY weight DESC\<close> as an ascending sort key: larger weights first, NULL (which
  SQLite orders below every value) last.
\<close>

definition desc_key :: "rat option \<Rightarrow> nat \<times> rat" where
  "desc_key w = (case w of None \<Rightarrow> (1, 0) | Some x \<Rightarrow> (0, - x))"

text \<open>
  The rows of the first query before ordering: the questions of the study key for which
  the LEFT JOIN finds no \<open>user_progress\<close> row of the user.
\<close>

definition unused_rows :: "string \<Rightarrow> int \<Rightarrow> db \<Rightarrow> question list" where
  "unused_rows studyKey userId d =
     filter (\<lambda>q. study_key q = studyKey
                \<and> \<not> (\<exists>up \<in> set (user_progress d).
                        q_id q = up_question_id up \<and> up_user_id up = userId))
       (questions d)"

text \<open>
  The first query: \<open>ORDER BY weight DESC, RANDOM() LIMIT 1\<close>. \<open>rnd k\<close> is the value of
  \<open>RANDOM()\<close> drawn for the \<open>k\<close>-th row. The sort is the stable insertion sort of the
  library; which row SQLite puts first among rows equal in both keys is not specified.
\<close>

definition query_unused :: "(nat \<Rightarrow> int) \<Rightarrow> string \<Rightarrow> int \<Rightarrow> db \<Rightarrow> question option" where
  "query_unused rnd studyKey userId d =
     (let rows = unused_rows studyKey userId d
      in map_option fst
           (first_row (sort_key (\<lambda>p. (desc_key (weight (fst p)), snd p))
                         (zip rows (map rnd [0..<length rows])))))"

text \<open>The rows of the second query: the JOIN of questions and \<open>user_progress\<close>.\<close>

definition lru_rows :: "string \<Rightarrow> int \<Rightarrow> db \<Rightarrow> (question \<times> progress_row) list" where
  "lru_rows studyKey userId d =
     [(q, up). q \<leftarrow> questions d, up \<leftarrow> user_progress d,
               q_id q = up_question_id up \<and> study_key q = studyKey \<and> up_user_id up = userId]"

text \<open>The second query: \<open>ORDER BY up.last_used_at ASC LIMIT 1\<close>.\<close>

definition query_lru :: "string \<Rightarrow> int \<Rightarrow> db \<Rightarrow> question option" where
  "query_lru studyKey userId d =
     map_option fst (first_row (sort_key (\<lambda>p. last_used_at (snd p)) (lru_rows studyKey userId d)))"

text \<open>The third query: \<open>SELECT * FROM questions WHERE study_key = $studyKey LIMIT 1\<close>.\<close>

definition query_any :: "string \<Rightarrow> db \<Rightarrow> question option" where
  "query_any studyKey d = first_row (filter (\<lambda>q. study_key q = studyKey) (questions d))"

text \<open>\<open>INSERT INTO user_progress ... ON CONFLICT(user_id, question_id) DO UPDATE\<close>.\<close>

definition touch_progress :: "int \<Rightarrow> int \<Rightarrow> int \<Rightarrow> db \<Rightarrow> db" where
  "touch_progress userId questionId now d =
     (if \<exists>up \<in> set (user_progress d). up_user_id up = userId \<and> up_question_id up = questionId
      then d\<lparr>user_progress :=
               update_where (\<lambda>up. up_user_id up = userId \<and> up_question_id up = questionId)
                 (\<lambda>up. up\<lparr>last_used_at := now\<rparr>) (user_progress d)\<rparr>
      else d\<lparr>user_progress := user_progress d @
               [\<lparr>up_user_id = userId, up_question_id = questionId, last_used_at = now\<rparr>]\<rparr>)"

text \<open>
  \<open>getRandomQuestion\<close>; \<open>now\<close> is the reading of \<open>Date.now()\<close>. The result is the new
  store and what the call returns: the row with its options parsed (the field \<open>options\<close>
  of a row already stands for the parsed value), null, or the \<open>SyntaxError\<close> of
  \<open>JSON.parse(result.options)\<close>, thrown after the exposure is written.
\<close>

definition getRandomQuestion ::
  "(nat \<Rightarrow> int) \<Rightarrow> int \<Rightarrow> string \<Rightarrow> int \<Rightarrow> db \<Rightarrow> db \<times> (error + question option)"
  where
  "getRandomQuestion rnd now studyKey userId d =
     (let result = query_unused rnd studyKey userId d;
          result = (if result = None then query_lru studyKey userId d else result);
          result = (if result = None then query_any studyKey d else result)
      in case result of
           Some row \<Rightarrow>
             let d' = touch_progress userId (q_id row) now d
             in (case options row of
                   Malformed \<Rightarrow> (d', Inl SyntaxError)
                 | _ \<Rightarrow> (d', Inr (Some row)))
         | None \<Rightarrow> (d, Inr None))"

section \<open>Ledger consistency\<close>

text \<open>The number of stored votes of value \<open>v\<close> on a question.\<close>

definition count_votes :: "int \<Rightarrow> int \<Rightarrow> db \<Rightarrow> int" where
  "count_votes questionId v d =
     int (length (filter (\<lambda>r. v_question_id r = questionId \<and> vote r = v) (votes d)))"

text \<open>Every stored question's counters equal the numbers of its stored up and down votes.\<close>

definition ledger_consistent :: "db \<Rightarrow> bool" where
  "ledger_consistent d =
     (\<forall>q \<in> set (questions d).
        thumbs_up q = count_votes (q_id q) 1 d \<and> thumbs_down q = count_votes (q_id q) (- 1) d)"

text \<open>
  What the schema enforces: the three PRIMARY KEY constraints, and AUTOINCREMENT (no stored
  id exceeds the counter).
\<close>

definition keys_ok :: "db \<Rightarrow> bool" where
  "keys_ok d =
     (distinct (map q_id (questions d))
      \<and> distinct (map (\<lambda>v. (v_user_id v, v_question_id v)) (votes d))
      \<and> distinct (map (\<lambda>p. (up_user_id p, up_question_id p)) (user_progress d))
      \<and> (\<forall>q \<in> set (questions d). q_id q \<le> questions_seq d))"

text \<open>
  Every vote row was written by \<open>addVote\<close> for a question that was in the store: its value
  is 1 or -1 and its question id has been handed out.
\<close>

definition votes_ok :: "db \<Rightarrow> bool" where
  "votes_ok d =
     (\<forall>v \<in> set (votes d). (vote v = 1 \<or> vote v = - 1) \<and> v_question_id v \<le> questions_seq d)"

definition ledger_inv :: "db \<Rightarrow> bool" where
  "ledger_inv d = (keys_ok d \<and> votes_ok d \<and> ledger_consistent d)"

section \<open>Generation pipeline (ai.ts)\<close>

text \<open>
  The values \<open>JSON.parse\<close> returns. A number carries its numeric value; the indices of an
  array are compared with it by \<open>Array.prototype.includes\<close>.
\<close>

datatype json =
  JNull | JBool bool | JNum rat | JStr string | JArr "json list" | JObj "(string \<times> json) list"

text \<open>The interface \<open>GeneratedQuestion\<close>.\<close>

record GeneratedQuestion =
  question :: string
  gq_options :: "string list"
  gq_correct_index :: int

text \<open>
  What a call of the completion service gives: the call throws (\<open>ApiError\<close>), or
  \<open>completion.choices[0]?.message?.content\<close> is a string or is undefined (\<open>None\<close>).
\<close>

datatype completion = ApiError | Content "string option"

text \<open>
  The characters \<open>String.prototype.trim\<close> strips, in UTF-8: the white space of ECMAScript
  (U+0009, U+000B, U+000C, U+FEFF and the space separators U+0020, U+00A0, U+1680,
  U+2000 to U+200A, U+202F, U+205F, U+3000) and its line terminators (U+000A, U+000D,
  U+2028, U+2029).
\<close>

definition js_whitespace :: "string list" where
  "js_whitespace =
     [[CHR 0x09], [CHR 0x0A], [CHR 0x0B], [CHR 0x0C], [CHR 0x0D], [CHR 0x20],
      [CHR 0xC2, CHR 0xA0], [CHR 0xE1, CHR 0x9A, CHR 0x80],
      [CHR 0xE2, CHR 0x80, CHR 0x80], [CHR 0xE2, CHR 0x80, CHR 0x81],
      [CHR 0xE2, CHR 0x80, CHR 0x82], [CHR 0xE2, CHR 0x80, CHR 0x83],
      [CHR 0xE2, CHR 0x80, CHR 0x84], [CHR 0xE2, CHR 0x80, CHR 0x85],
      [CHR 0xE2, CHR 0x80, CHR 0x86], [CHR 0xE2, CHR 0x80, CHR 0x87],
      [CHR 0xE2, CHR 0x80, CHR 0x88], [CHR 0xE2, CHR 0x80, CHR 0x89],
      [CHR 0xE2, CHR 0x80, CHR 0x8A], [CHR 0xE2, CHR 0x80, CHR 0xA8],
      [CHR 0xE2, CHR 0x80, CHR 0xA9], [CHR 0xE2, CHR 0x80, CHR 0xAF],
      [CHR 0xE2, CHR 0x81, CHR 0x9F], [CHR 0xE3, CHR 0x80, CHR 0x80],
      [CHR 0xEF, CHR 0xBB, CHR 0xBF]]"

text \<open>The white-space character a string starts with, and the one it ends with.\<close>

definition white_prefix :: "string \<Rightarrow> string option" where
  "white_prefix s = find (\<lambda>w. w \<noteq> [] \<and> take (length w) s = w) js_whitespace"

definition white_suffix :: "string \<Rightarrow> string option" where
  "white_suffix s =
     find (\<lambda>w. w \<noteq> [] \<and> length w \<le> length s \<and> drop (length s - length w) s = w) js_whitespace"

function trim_start :: "string \<Rightarrow> string" where
  "trim_start s =
     (case white_prefix s of Some w \<Rightarrow> trim_start (drop (length w) s) | None \<Rightarrow> s)"
  by pat_completeness auto
termination
proof (relation "measure length")
  show "wf (measure length)" by simp
next
  fix s w assume "white_prefix s = Some w"
  then have "w \<noteq> []" "take (length w) s = w"
    by (auto simp: white_prefix_def dest: find_Some_iff[THEN iffD1])
  then have "0 < length w" and "length (take (length w) s) = length w" by simp_all
  then have "0 < length w" and "min (length s) (length w) = length w" by simp_all
  then have "length s - length w < length s" by arith
  then show "(drop (length w) s, s) \<in> measure length" by simp
qed

function trim_end :: "string \<Rightarrow> string" where
  "trim_end s =
     (case white_suffix s of Some w \<Rightarrow> trim_end (take (length s - length w) s) | None \<Rightarrow> s)"
  by pat_completeness auto
termination
proof (relation "measure length")
  show "wf (measure length)" by simp
next
  fix s w assume "white_suffix s = Some w"
  then have "w \<noteq> []" "length w \<le> length s"
    by (auto simp: white_suffix_def dest: find_Some_iff[THEN iffD1])
  then have "0 < length w" and "length w \<le> length s" by simp_all
  then have "min (length s) (length s - length w) < length s" by arith
  then show "(take (length s - length w) s, s) \<in> measure length" by simp
qed

text \<open>\<open>String.prototype.trim\<close>.\<close>

definition trim :: "string \<Rightarrow> string" where
  "trim s = trim_end (trim_start s)"

text \<open>\<open>s.replace(/pat/g, "")\<close> for a literal pattern: every match, left to right, is dropped.\<close>

fun remove_all :: "string \<Rightarrow> string \<Rightarrow> string" where
  "remove_all pat [] = []"
| "remove_all pat (c # cs) =
     (if pat \<noteq> [] \<and> take (length pat) (c # cs) = pat
      then remove_all pat (drop (length pat) (c # cs))
      else c # remove_all pat cs)"

text \<open>\<open>content.replace(/```json/g, "").replace(/```/g, "").trim()\<close>.\<close>

definition cleanContent :: "string \<Rightarrow> string" where
  "cleanContent content = trim (remove_all ''```'' (remove_all ''```json'' content))"

text \<open>
  \<open>filterBadQuestions\<close> (the same code in both versions of the file; the later one only
  adds the source text to the prompt). \<open>parse\<close> is \<open>JSON.parse\<close>, \<open>None\<close> when it throws;
  \<open>qs\<close> is the parameter \<open>questions\<close>, \<open>reply\<close> what the second completion call
  gives. The filter keeps the questions whose
  position \<open>i\<close> satisfies \<open>goodIndices.includes(i)\<close>.
\<close>

definition filterBadQuestions ::
  "(string \<Rightarrow> json option) \<Rightarrow> GeneratedQuestion list \<Rightarrow> completion \<Rightarrow> GeneratedQuestion list"
  where
  "filterBadQuestions parse qs reply =
     (if length qs = 0 then []
      else case reply of
        ApiError \<Rightarrow> qs
      | Content c \<Rightarrow>
          (case map_option trim c of
             None \<Rightarrow> qs
           | Some content \<Rightarrow>
               if content = [] then qs
               else case parse (cleanContent content) of
                 None \<Rightarrow> qs
               | Some goodIndices \<Rightarrow>
                   (case goodIndices of
                      JArr elems \<Rightarrow>
                        map fst (filter (\<lambda>(q, i). JNum (of_nat i) \<in> set elems)
                                   (zip qs [0..<length qs]))
                    | _ \<Rightarrow> qs)))"

text \<open>
  \<open>generateQuestions\<close>. \<open>apiKey\<close> tells whether \<open>GROQ_API_KEY\<close> is set;
  \<open>parseQuestions\<close> is \<open>JSON.parse\<close> followed by the cast to \<open>GeneratedQuestion[]\<close>
  (which checks nothing at run time), \<open>None\<close> when \<open>JSON.parse\<close> throws; \<open>reply1\<close> and
  \<open>reply2\<close> are what the two completion calls give.
\<close>

definition generateQuestions ::
  "bool \<Rightarrow> (string \<Rightarrow> GeneratedQuestion list option) \<Rightarrow> (string \<Rightarrow> json option) \<Rightarrow>
   completion \<Rightarrow> completion \<Rightarrow> error + GeneratedQuestion list" where
  "generateQuestions apiKey parseQuestions parse reply1 reply2 =
     (if \<not> apiKey then Inl NotConfigured
      else Inr
        (case reply1 of
           ApiError \<Rightarrow> []
         | Content c \<Rightarrow>
             (case map_option trim c of
                None \<Rightarrow> []
              | Some content \<Rightarrow>
                  if content = [] then []
                  else case parseQuestions (cleanContent content) of
                    None \<Rightarrow> []
                  | Some initialQuestions \<Rightarrow>
                      if length initialQuestions = 0 then []
                      else filterBadQuestions parse initialQuestions reply2)))"

section \<open>Persisting candidates (message handler)\<close>

text \<open>
  The loop of the message handler over the candidates \<open>generateQuestions\<close> returned:
  each one goes to \<open>saveQuestion\<close> as it is. Rendering and storing the image follow in a
  try/catch of their own and touch no table.
\<close>

definition saveGenerated :: "int \<Rightarrow> string \<Rightarrow> GeneratedQuestion list \<Rightarrow> db \<Rightarrow> db" where
  "saveGenerated now studyKey qs d =
     fold (\<lambda>q d'. snd (saveQuestion now studyKey (question q) (gq_options q)
                        (gq_correct_index q) d')) qs d"

section \<open>Debias routine (the CLEAN_RIGHT_ANSWERS start-up block)\<close>

definition getAllQuestionsRaw :: "db \<Rightarrow> question list" where
  "getAllQuestionsRaw d = questions d"

text \<open>\<open>updateQuestionOptions\<close>: one UPDATE statement setting both columns.\<close>

definition updateQuestionOptions :: "int \<Rightarrow> string list \<Rightarrow> int \<Rightarrow> db \<Rightarrow> db" where
  "updateQuestionOptions ident opts correctIndex d =
     d\<lparr>questions :=
         update_where (\<lambda>q. q_id q = ident)
           (\<lambda>q. q\<lparr>options := JsonArray opts, correct_index := correctIndex\<rparr>) (questions d)\<rparr>"

text \<open>\<open>Math.floor(Math.random() * (i + 1))\<close>, for the value \<open>u\<close> of \<open>Math.random()\<close>.\<close>

definition random_index :: "rat \<Rightarrow> nat \<Rightarrow> nat" where
  "random_index u i = nat \<lfloor>u * (of_nat i + 1)\<rfloor>"

text \<open>
  The Fisher-Yates loop \<open>for (let i = options.length - 1; i > 0; i--)\<close>; \<open>u i\<close> is the
  value of \<open>Math.random()\<close> drawn in the iteration with loop index \<open>i\<close>. The destructuring
  swap writes the old \<open>options[j]\<close> to position \<open>i\<close>, then the old \<open>options[i]\<close> to
  position \<open>j\<close>.
\<close>

fun shuffle_from :: "(nat \<Rightarrow> rat) \<Rightarrow> nat \<Rightarrow> 'a list \<Rightarrow> 'a list" where
  "shuffle_from u 0 opts = opts"
| "shuffle_from u (Suc k) opts =
     (let i = Suc k; j = random_index (u i) i
      in shuffle_from u k (opts[i := opts ! j, j := opts ! i]))"

definition fisherYates :: "(nat \<Rightarrow> rat) \<Rightarrow> 'a list \<Rightarrow> 'a list" where
  "fisherYates u opts = shuffle_from u (length opts - 1) opts"

text \<open>\<open>options[q.correct_index]\<close>: undefined (\<open>None\<close>) outside the array.\<close>

definition js_nth :: "'a list \<Rightarrow> int \<Rightarrow> 'a option" where
  "js_nth xs i = (if 0 \<le> i \<and> i < int (length xs) then Some (xs ! nat i) else None)"

text \<open>
  \<open>Array.prototype.indexOf\<close>: the first position of the value, or -1. An array of strings
  holds no undefined, so looking for undefined gives -1.
\<close>

fun index_from :: "'a list \<Rightarrow> 'a \<Rightarrow> int \<Rightarrow> int" where
  "index_from [] x k = - 1"
| "index_from (y # ys) x k = (if y = x then k else index_from ys x (k + 1))"

definition indexOf :: "'a list \<Rightarrow> 'a option \<Rightarrow> int" where
  "indexOf xs v = (case v of None \<Rightarrow> - 1 | Some x \<Rightarrow> index_from xs x 0)"

text \<open>The lines the routine writes with \<open>console.error\<close>.\<close>

datatype log_entry = ParseFailed int | AnswerLost int | RenderFailed int | ShuffleError

text \<open>
  The length of a JavaScript string in UTF-16 code units, from its UTF-8 bytes: one unit
  for every byte that starts a character, and a second one for the characters of four
  bytes.
\<close>

definition utf16_length :: "string \<Rightarrow> nat" where
  "utf16_length s =
     length (filter (\<lambda>c. (of_char c :: nat) < 0x80 \<or> 0xC0 \<le> (of_char c :: nat)) s)
     + length (filter (\<lambda>c. 0xF0 \<le> (of_char c :: nat)) s)"

text \<open>
  The body of the loop up to the call of \<open>updateQuestionOptions\<close>. On an array: the
  question is skipped with a log line (\<open>continue\<close>), or the shuffled options and the new
  index are ready to be stored (\<open>Update\<close>). On a value that is no array the body runs as
  JavaScript runs it:
  \<^item> null, boolean, number, object (\<open>JsonOther\<close>): a TypeError, at \<open>options[q.correct_index]\<close>
    for null and at \<open>options.indexOf\<close>, which is no function, for the others (\<open>Raise\<close>);
  \<^item> a string of two or more code units: the first swap assigns to an index of a string,
    a TypeError in module (strict) code (\<open>Raise\<close>);
  \<^item> a string of one code unit with index 0: no swap, \<open>options.indexOf\<close> is that of
    strings and finds the string at 0, and the update writes the string and the index 0
    back (\<open>Rewrite\<close>); the renderer then fails on \<open>options.map\<close>;
  \<^item> any other string of at most one code unit: \<open>options[q.correct_index]\<close> is undefined,
    \<open>indexOf\<close> gives -1 and the question is skipped.
\<close>

datatype shuffle_step = Skip log_entry | Update "string list" int | Rewrite string | Raise

definition shuffle_question :: "(nat \<Rightarrow> rat) \<Rightarrow> question \<Rightarrow> shuffle_step" where
  "shuffle_question u q =
     (case options q of
        Malformed \<Rightarrow> Skip (ParseFailed (q_id q))
      | JsonOther \<Rightarrow> Raise
      | JsonString s \<Rightarrow>
          if 2 \<le> utf16_length s then Raise
          else if utf16_length s = 1 \<and> correct_index q = 0 then Rewrite s
          else Skip (AnswerLost (q_id q))
      | JsonArray opts \<Rightarrow>
          let correctAnswer = js_nth opts (correct_index q);
              shuffled = fisherYates u opts;
              newCorrectIndex = indexOf shuffled correctAnswer
          in if newCorrectIndex = - 1 then Skip (AnswerLost (q_id q))
             else Update shuffled newCorrectIndex)"

text \<open>
  What the routine takes from outside: \<open>random k i\<close> is the value of \<open>Math.random()\<close> for
  the \<open>k\<close>-th question of the batch at loop index \<open>i\<close>; \<open>update_fails\<close> tells for which
  question id \<open>updateQuestionOptions\<close> throws, \<open>render_fails\<close> for which one rendering or
  saving the image throws.
\<close>

record shuffle_env =
  random :: "nat \<Rightarrow> nat \<Rightarrow> rat"
  update_fails :: "int \<Rightarrow> bool"
  render_fails :: "int \<Rightarrow> bool"

text \<open>
  The loop \<open>for (const q of questions)\<close> over the rows read at the start. A TypeError of
  the body and an exception of \<open>updateQuestionOptions\<close> are caught by no try block inside
  the loop: they leave the loop for the outer catch, which logs them. An exception while
  rendering is caught inside the loop, after the update. The images themselves are not
  part of the state.
\<close>

fun shuffle_loop ::
  "shuffle_env \<Rightarrow> nat \<Rightarrow> question list \<Rightarrow> db \<times> log_entry list \<Rightarrow> db \<times> log_entry list" where
  "shuffle_loop env k [] (d, lg) = (d, lg)"
| "shuffle_loop env k (q # rest) (d, lg) =
     (case shuffle_question (random env k) q of
        Skip entry \<Rightarrow> shuffle_loop env (Suc k) rest (d, lg @ [entry])
      | Raise \<Rightarrow> (d, lg @ [ShuffleError])
      | Rewrite s \<Rightarrow>
          if update_fails env (q_id q) then (d, lg @ [ShuffleError])
          else
            let d' = d\<lparr>questions :=
                       update_where (\<lambda>r. q_id r = q_id q)
                         (\<lambda>r. r\<lparr>options := JsonString s, correct_index := 0\<rparr>) (questions d)\<rparr>
            in shuffle_loop env (Suc k) rest (d', lg @ [RenderFailed (q_id q)])
      | Update shuffled newCorrectIndex \<Rightarrow>
          if update_fails env (q_id q) then (d, lg @ [ShuffleError])
          else
            let d' = updateQuestionOptions (q_id q) shuffled newCorrectIndex d
            in if render_fails env (q_id q)
               then shuffle_loop env (Suc k) rest (d', lg @ [RenderFailed (q_id q)])
               else shuffle_loop env (Suc k) rest (d', lg))"

definition reshuffleAll :: "shuffle_env \<Rightarrow> db \<Rightarrow> db \<times> log_entry list" where
  "reshuffleAll env d = shuffle_loop env 0 (getAllQuestionsRaw d) (d, [])"

text \<open>
  \<open>stops env k q\<close>: the iteration on \<open>q\<close> ends in an exception that leaves the loop, a
  TypeError of the body or an exception of the update.
\<close>

definition stops :: "shuffle_env \<Rightarrow> nat \<Rightarrow> question \<Rightarrow> bool" where
  "stops env k q =
     (case shuffle_question (random env k) q of
        Skip entry \<Rightarrow> False
      | Raise \<Rightarrow> True
      | Rewrite s \<Rightarrow> update_fails env (q_id q)
      | Update shuffled newCorrectIndex \<Rightarrow> update_fails env (q_id q))"


text \<open>
  What one iteration of the loop makes of its row: the row itself when the question is
  skipped or the iteration ends in an exception, the row with the options and the index
  the update writes otherwise. And the log lines of an iteration that does not leave the
  loop.
\<close>

definition row_result :: "shuffle_env \<Rightarrow> nat \<Rightarrow> question \<Rightarrow> question" where
  "row_result env k q =
     (case shuffle_question (random env k) q of
        Skip entry \<Rightarrow> q
      | Raise \<Rightarrow> q
      | Rewrite s \<Rightarrow>
          if update_fails env (q_id q) then q
          else q\<lparr>options := JsonString s, correct_index := 0\<rparr>
      | Update shuffled newCorrectIndex \<Rightarrow>
          if update_fails env (q_id q) then q
          else q\<lparr>options := JsonArray shuffled, correct_index := newCorrectIndex\<rparr>)"

definition row_log :: "shuffle_env \<Rightarrow> nat \<Rightarrow> question \<Rightarrow> log_entry list" where
  "row_log env k q =
     (case shuffle_question (random env k) q of
        Skip entry \<Rightarrow> [entry]
      | Raise \<Rightarrow> []
      | Rewrite s \<Rightarrow> [RenderFailed (q_id q)]
      | Update shuffled newCorrectIndex \<Rightarrow>
          if render_fails env (q_id q) then [RenderFailed (q_id q)] else [])"

text \<open>
  \<open>reshuffled q q'\<close>: \<open>q'\<close> is \<open>q\<close> up to its options and index; its options are a
  permutation of those of \<open>q\<close>, and its index points at the text the index of \<open>q\<close>
  pointed at (at nothing when that one pointed outside the options). A row whose options
  are no array is \<open>reshuffled\<close> only into itself.
\<close>

definition reshuffled :: "question \<Rightarrow> question \<Rightarrow> bool" where
  "reshuffled q q' =
     (q'\<lparr>options := options q, correct_index := correct_index q\<rparr> = q
      \<and> (case (options q, options q') of
            (JsonArray os, JsonArray os') \<Rightarrow>
              mset os' = mset os
              \<and> js_nth os' (correct_index q') = js_nth os (correct_index q)
          | _ \<Rightarrow> options q' = options q \<and> correct_index q' = correct_index q))"

section \<open>Structural validity of questions\<close>

definition valid_options :: "string list \<Rightarrow> int \<Rightarrow> bool" where
  "valid_options os i = (2 \<le> length os \<and> 0 \<le> i \<and> i < int (length os))"

definition valid_question :: "question \<Rightarrow> bool" where
  "valid_question q =
     (case options q of
        JsonArray os \<Rightarrow> valid_options os (correct_index q)
      | _ \<Rightarrow> False)"

definition store_valid :: "db \<Rightarrow> bool" where
  "store_valid d = (\<forall>q \<in> set (questions d). valid_question q)"

definition valid_candidate :: "GeneratedQuestion \<Rightarrow> bool" where
  "valid_candidate c = valid_options (gq_options c) (gq_correct_index c)"

section \<open>Sample stores\<close>

text \<open>A store with one question under the key \<open>physics\<close> and one vote on it.\<close>

definition orphan_db :: db where
  "orphan_db =
     \<lparr>questions = [\<lparr>q_id = 1, study_key = ''physics'', question_text = ''Q'',
                     options = JsonArray [''a'', ''b''], correct_index = 0, created_at = 0,
                     thumbs_up = 1, thumbs_down = 0\<rparr>],
      questions_seq = 1,
      votes = [\<lparr>v_user_id = 7, v_question_id = 1, vote = 1\<rparr>],
      user_progress = []\<rparr>"

definition ledger_db :: db where
  "ledger_db =
     \<lparr>questions = [\<lparr>q_id = 1, study_key = ''physics'', question_text = ''Q'',
                     options = JsonArray [''a'', ''b''], correct_index = 0, created_at = 0,
                     thumbs_up = 0, thumbs_down = 0\<rparr>],
      questions_seq = 1, votes = [], user_progress = []\<rparr>"


text \<open>Three drafts, and a \<open>JSON.parse\<close> that knows the replies used below.\<close>

definition sample_drafts :: "GeneratedQuestion list" where
  "sample_drafts =
     [\<lparr>question = ''What does Newton's first law state?'', gq_options = [''a'', ''b''],
       gq_correct_index = 0\<rparr>,
      \<lparr>question = ''What does this law state?'', gq_options = [''a'', ''b''],
       gq_correct_index = 1\<rparr>,
      \<lparr>question = ''Who stated the law of inertia?'', gq_options = [''a'', ''b'', ''c''],
       gq_correct_index = 2\<rparr>]"

definition sample_parseQuestions :: "string \<Rightarrow> GeneratedQuestion list option" where
  "sample_parseQuestions s = (if s = ''[q0, q1, q2]'' then Some sample_drafts else None)"

definition sample_parse :: "string \<Rightarrow> json option" where
  "sample_parse s =
     (if s = ''[0, 2, 7]'' then Some (JArr [JNum 0, JNum 2, JNum 7])
      else if s = ''{\"ok\": true}'' then Some (JObj [(''ok'', JBool True)])
      else None)"


text \<open>Two stored questions, and three environments of the debias routine.\<close>

definition shuffle_db :: db where
  "shuffle_db =
     \<lparr>questions =
        [\<lparr>q_id = 1, study_key = ''physics'', question_text = ''Q1'',
          options = JsonArray [''a'', ''b'', ''c''], correct_index = 0, created_at = 0,
          thumbs_up = 0, thumbs_down = 0\<rparr>,
         \<lparr>q_id = 2, study_key = ''physics'', question_text = ''Q2'',
          options = JsonArray [''x'', ''y''], correct_index = 1, created_at = 0,
          thumbs_up = 0, thumbs_down = 0\<rparr>],
      questions_seq = 2, votes = [], user_progress = []\<rparr>"

definition quiet_env :: shuffle_env where
  "quiet_env = \<lparr>random = (\<lambda>k i. 0), update_fails = (\<lambda>i. False), render_fails = (\<lambda>i. False)\<rparr>"


definition update_fail_env :: shuffle_env where
  "update_fail_env =
     \<lparr>random = (\<lambda>k i. 0), update_fails = (\<lambda>i. i = 1), render_fails = (\<lambda>i. False)\<rparr>"


text \<open>Three stored questions; the stored options of the second are the text \<open>null\<close>.\<close>

definition null_db :: db where
  "null_db =
     \<lparr>questions =
        [\<lparr>q_id = 1, study_key = ''physics'', question_text = ''Q1'',
          options = JsonArray [''a'', ''b'', ''c''], correct_index = 0, created_at = 0,
          thumbs_up = 0, thumbs_down = 0\<rparr>,
         \<lparr>q_id = 2, study_key = ''physics'', question_text = ''Q2'',
          options = JsonOther, correct_index = 0, created_at = 0,
          thumbs_up = 0, thumbs_down = 0\<rparr>,
         \<lparr>q_id = 3, study_key = ''physics'', question_text = ''Q3'',
          options = JsonArray [''x'', ''y''], correct_index = 1, created_at = 0,
          thumbs_up = 0, thumbs_down = 0\<rparr>],
      questions_seq = 3, votes = [], user_progress = []\<rparr>"

text \<open>A candidate without options.\<close>

definition bad_candidate :: GeneratedQuestion where
  "bad_candidate = \<lparr>question = ''Q'', gq_options = [], gq_correct_index = 3\<rparr>"


text \<open>
  Three questions under one key: A without votes, B and C with three up votes each; no
  exposure yet. And the same store after the user 7 has seen all three, at times 30, 10, 20.
\<close>

definition abc_db :: db where
  "abc_db =
     \<lparr>questions =
        [\<lparr>q_id = 1, study_key = ''physics'', question_text = ''A'',
          options = JsonArray [''a'', ''b''], correct_index = 0, created_at = 0,
          thumbs_up = 0, thumbs_down = 0\<rparr>,
         \<lparr>q_id = 2, study_key = ''physics'', question_text = ''B'',
          options = JsonArray [''a'', ''b''], correct_index = 0, created_at = 0,
          thumbs_up = 3, thumbs_down = 0\<rparr>,
         \<lparr>q_id = 3, study_key = ''physics'', question_text = ''C'',
          options = JsonArray [''a'', ''b''], correct_index = 1, created_at = 0,
          thumbs_up = 3, thumbs_down = 0\<rparr>],
      questions_seq = 3, votes = [], user_progress = []\<rparr>"

definition seen_db :: db where
  "seen_db =
     abc_db\<lparr>user_progress :=
       [\<lparr>up_user_id = 7, up_question_id = 1, last_used_at = 30\<rparr>,
        \<lparr>up_user_id = 7, up_question_id = 2, last_used_at = 10\<rparr>,
        \<lparr>up_user_id = 7, up_question_id = 3, last_used_at = 20\<rparr>]\<rparr>"

text \<open>Draws of \<open>RANDOM()\<close>: 5, 9, 2 for the rows 0, 1, 2.\<close>

definition sample_rnd :: "nat \<Rightarrow> int" where
  "sample_rnd k = (if k = 0 then 5 else if k = 1 then 9 else 2)"

section \<open>Properties\<close>

section \<open>Quality ledger: vote application\<close>

lemma find_update_where:
  "(\<And>r. P r \<Longrightarrow> P (f r)) \<Longrightarrow> find P (update_where P f rows) = map_option f (find P rows)"
  by (induction rows) (auto simp: update_where_def)

lemma find_append_new:
  "find P (rows @ [r]) = (case find P rows of Some x \<Rightarrow> Some x | None \<Rightarrow> if P r then Some r else None)"
  by (induction rows) auto

lemma find_present: "k \<in> f ` set rows \<Longrightarrow> \<exists>r. find (\<lambda>x. f x = k) rows = Some r \<and> f r = k"
  by (induction rows) auto

lemma addVote_new:
  assumes "questionId \<in> q_id ` set (questions d)" "findVote userId questionId d = None"
  shows "getQuestionStats questionId (addVote userId questionId isUpvote d)
           = (if isUpvote then (fst (getQuestionStats questionId d) + 1, snd (getQuestionStats questionId d))
              else (fst (getQuestionStats questionId d), snd (getQuestionStats questionId d) + 1))"
    and "map_option vote (findVote userId questionId (addVote userId questionId isUpvote d)) = Some (if isUpvote then 1 else - 1)"
proof -
  obtain r where r: "find (\<lambda>x. q_id x = questionId) (questions d) = Some r"
    using find_present[OF assms(1)] by blast
  show "getQuestionStats questionId (addVote userId questionId isUpvote d)
           = (if isUpvote then (fst (getQuestionStats questionId d) + 1, snd (getQuestionStats questionId d))
              else (fst (getQuestionStats questionId d), snd (getQuestionStats questionId d) + 1))"
    using assms(2) r by (simp add: addVote_def getQuestionStats_def find_update_where Let_def)
  show "map_option vote (findVote userId questionId (addVote userId questionId isUpvote d)) = Some (if isUpvote then 1 else - 1)"
    using assms(2) by (simp add: addVote_def Let_def) (simp add: findVote_def find_append_new)
qed

lemma addVote_same:
  assumes "findVote userId questionId d = Some e" "vote e = (if isUpvote then 1 else - 1)"
  shows "addVote userId questionId isUpvote d = d"
  using assms by (simp add: addVote_def Let_def)

lemma addVote_flip:
  assumes "questionId \<in> q_id ` set (questions d)" "findVote userId questionId d = Some e"
     "vote e \<noteq> (if isUpvote then 1 else - 1)"
  shows "getQuestionStats questionId (addVote userId questionId isUpvote d)
           = (if isUpvote then (fst (getQuestionStats questionId d) + 1, snd (getQuestionStats questionId d) - 1)
              else (fst (getQuestionStats questionId d) - 1, snd (getQuestionStats questionId d) + 1))"
    and "map_option vote (findVote userId questionId (addVote userId questionId isUpvote d)) = Some (if isUpvote then 1 else - 1)"
proof -
  obtain r where r: "find (\<lambda>x. q_id x = questionId) (questions d) = Some r"
    using find_present[OF assms(1)] by blast
  show "getQuestionStats questionId (addVote userId questionId isUpvote d)
           = (if isUpvote then (fst (getQuestionStats questionId d) + 1, snd (getQuestionStats questionId d) - 1)
              else (fst (getQuestionStats questionId d) - 1, snd (getQuestionStats questionId d) + 1))"
    using assms(2,3) r by (simp add: addVote_def getQuestionStats_def find_update_where Let_def)
  have "find (\<lambda>v. v_user_id v = userId \<and> v_question_id v = questionId) (votes d) = Some e"
    using assms(2) by (simp add: findVote_def)
  then show "map_option vote (findVote userId questionId (addVote userId questionId isUpvote d)) = Some (if isUpvote then 1 else - 1)"
    using assms(2,3) by (simp add: addVote_def Let_def) (simp add: findVote_def find_update_where)
qed

lemma map_update_where:
  "(\<And>r. P r \<Longrightarrow> k (f r) = k r) \<Longrightarrow> map k (update_where P f rows) = map k rows"
  by (induction rows) (auto simp: update_where_def)

lemma addVote_ids: "map q_id (questions (addVote u q p d)) = map q_id (questions d)"
  by (simp add: addVote_def Let_def map_update_where split: option.splits)

lemma addVote_present:
  "q \<in> q_id ` set (questions d) \<Longrightarrow> q \<in> q_id ` set (questions (addVote u q p d))"
  using addVote_ids[of u q p d] by (metis set_map)

lemma repeated_votes:
  assumes "q \<in> q_id ` set (questions d)" "findVote u q d = None" "ps \<noteq> []"
  shows "getQuestionStats q (fold (addVote u q) ps d)
           = (if last ps then (fst (getQuestionStats q d) + 1, snd (getQuestionStats q d))
              else (fst (getQuestionStats q d), snd (getQuestionStats q d) + 1))
         \<and> map_option vote (findVote u q (fold (addVote u q) ps d)) = Some (if last ps then 1 else - 1)
         \<and> q \<in> q_id ` set (questions (fold (addVote u q) ps d))"
  using assms(3,1,2)
proof (induction ps rule: rev_nonempty_induct)
  case (single p)
  then show ?case using addVote_new[of q d u p] addVote_present[of q d u p] by simp
next
  case (snoc p ps)
  let ?d = "fold (addVote u q) ps d"
  from snoc have IH: "getQuestionStats q ?d
           = (if last ps then (fst (getQuestionStats q d) + 1, snd (getQuestionStats q d))
              else (fst (getQuestionStats q d), snd (getQuestionStats q d) + 1))"
     "map_option vote (findVote u q ?d) = Some (if last ps then 1 else - 1)"
     "q \<in> q_id ` set (questions ?d)" by simp_all
  from IH(2) obtain e where e: "findVote u q ?d = Some e" "vote e = (if last ps then 1 else - 1)"
    by auto
  show ?case
  proof (cases "p = last ps")
    case True
    then have "addVote u q p ?d = ?d" using addVote_same[OF e(1)] e(2) by simp
    then show ?thesis using IH True by simp
  next
    case False
    then have ne: "vote e \<noteq> (if p then 1 else - 1)" using e(2) by auto
    show ?thesis
      using addVote_flip[OF IH(3) e(1) ne] IH(1) False addVote_present[OF IH(3), of u p]
      by (auto split: if_splits)
  qed
qed

text \<open>
  C1. \<open>addVote\<close> on a stored question is one transition of the votes and the counters:
  with no prior vote of the user the matching counter goes up by one and the vote is stored;
  with a prior vote of the same polarity the store is unchanged, so voting twice is voting
  once; with a prior vote of the opposite polarity the old counter goes down by one, the
  new one up by one and the stored vote is overwritten. After any non-empty sequence of
  votes of one user who had not voted, the counters differ from the initial ones by exactly
  one, on the side of the last vote.
\<close>

theorem addVote_transition:
  assumes present: "questionId \<in> q_id ` set (questions d)"
  shows
    "(findVote userId questionId d = None \<longrightarrow>
        getQuestionStats questionId (addVote userId questionId isUpvote d)
          = (if isUpvote
             then (fst (getQuestionStats questionId d) + 1, snd (getQuestionStats questionId d))
             else (fst (getQuestionStats questionId d), snd (getQuestionStats questionId d) + 1))
        \<and> map_option vote (findVote userId questionId (addVote userId questionId isUpvote d))
            = Some (if isUpvote then 1 else - 1))
     \<and> (\<forall>e. findVote userId questionId d = Some e \<and> vote e = (if isUpvote then 1 else - 1) \<longrightarrow>
            addVote userId questionId isUpvote d = d)
     \<and> (\<forall>e. findVote userId questionId d = Some e \<and> vote e = - (if isUpvote then 1 else - 1) \<longrightarrow>
            getQuestionStats questionId (addVote userId questionId isUpvote d)
              = (if isUpvote
                 then (fst (getQuestionStats questionId d) + 1, snd (getQuestionStats questionId d) - 1)
                 else (fst (getQuestionStats questionId d) - 1, snd (getQuestionStats questionId d) + 1))
            \<and> map_option vote (findVote userId questionId (addVote userId questionId isUpvote d))
                = Some (if isUpvote then 1 else - 1))
     \<and> addVote userId questionId isUpvote (addVote userId questionId isUpvote d)
         = addVote userId questionId isUpvote d
     \<and> (\<forall>ps. ps \<noteq> [] \<and> findVote userId questionId d = None \<longrightarrow>
            getQuestionStats questionId (fold (addVote userId questionId) ps d)
              = (if last ps
                 then (fst (getQuestionStats questionId d) + 1, snd (getQuestionStats questionId d))
                 else (fst (getQuestionStats questionId d), snd (getQuestionStats questionId d) + 1))
            \<and> map_option vote (findVote userId questionId (fold (addVote userId questionId) ps d))
                = Some (if last ps then 1 else - 1))"
proof (intro conjI allI impI)
  assume n: "findVote userId questionId d = None"
  show "getQuestionStats questionId (addVote userId questionId isUpvote d)
          = (if isUpvote
             then (fst (getQuestionStats questionId d) + 1, snd (getQuestionStats questionId d))
             else (fst (getQuestionStats questionId d), snd (getQuestionStats questionId d) + 1))"
    by (rule addVote_new(1)[OF present n])
  show "map_option vote (findVote userId questionId (addVote userId questionId isUpvote d))
            = Some (if isUpvote then 1 else - 1)"
    by (rule addVote_new(2)[OF present n])
next
  fix e assume "findVote userId questionId d = Some e \<and> vote e = (if isUpvote then 1 else - 1)"
  then show "addVote userId questionId isUpvote d = d"
    using addVote_same by blast
next
  fix e assume a: "findVote userId questionId d = Some e \<and> vote e = - (if isUpvote then 1 else - 1)"
  then have ne: "vote e \<noteq> (if isUpvote then 1 else - 1)" by (simp split: if_splits)
  show "getQuestionStats questionId (addVote userId questionId isUpvote d)
              = (if isUpvote
                 then (fst (getQuestionStats questionId d) + 1, snd (getQuestionStats questionId d) - 1)
                 else (fst (getQuestionStats questionId d) - 1, snd (getQuestionStats questionId d) + 1))"
    using addVote_flip(1)[OF present _ ne] a by blast
  show "map_option vote (findVote userId questionId (addVote userId questionId isUpvote d))
                = Some (if isUpvote then 1 else - 1)"
    using addVote_flip(2)[OF present _ ne] a by blast
next
  show "addVote userId questionId isUpvote (addVote userId questionId isUpvote d)
         = addVote userId questionId isUpvote d"
  proof (cases "findVote userId questionId d")
    case None
    from addVote_new(2)[OF present None, of isUpvote]
    obtain e where "findVote userId questionId (addVote userId questionId isUpvote d) = Some e"
      "vote e = (if isUpvote then 1 else - 1)" by auto
    then show ?thesis by (rule addVote_same)
  next
    case (Some e)
    show ?thesis
    proof (cases "vote e = (if isUpvote then 1 else - 1)")
      case True
      then show ?thesis using addVote_same[OF Some] by simp
    next
      case False
      from addVote_flip(2)[OF present Some False]
      obtain e' where "findVote userId questionId (addVote userId questionId isUpvote d) = Some e'"
        "vote e' = (if isUpvote then 1 else - 1)" by auto
      then show ?thesis by (rule addVote_same)
    qed
  qed
next
  fix ps :: "bool list" assume a: "ps \<noteq> [] \<and> findVote userId questionId d = None"
  then have ne: "ps \<noteq> []" and n: "findVote userId questionId d = None" by simp_all
  show "getQuestionStats questionId (fold (addVote userId questionId) ps d)
              = (if last ps
                 then (fst (getQuestionStats questionId d) + 1, snd (getQuestionStats questionId d))
                 else (fst (getQuestionStats questionId d), snd (getQuestionStats questionId d) + 1))"
    using repeated_votes[OF present n ne] by blast
  show "map_option vote (findVote userId questionId (fold (addVote userId questionId) ps d))
                = Some (if last ps then 1 else - 1)"
    using repeated_votes[OF present n ne] by blast
qed

theorem addVote_transition_witness:
  "1 \<in> q_id ` set (questions ledger_db)
   \<and> findVote 7 1 ledger_db = None
   \<and> getQuestionStats 1 (addVote 7 1 True ledger_db) = (1, 0)
   \<and> map_option vote (findVote 7 1 (addVote 7 1 True ledger_db)) = Some 1
   \<and> addVote 7 1 True (addVote 7 1 True ledger_db) = addVote 7 1 True ledger_db
   \<and> getQuestionStats 1 (addVote 7 1 False (addVote 7 1 True ledger_db)) = (0, 1)
   \<and> map_option vote (findVote 7 1 (addVote 7 1 False (addVote 7 1 True ledger_db))) = Some (- 1)
   \<and> getQuestionStats 1 (fold (addVote 7 1) [True, True, False, True] ledger_db) = (1, 0)"
proof -
  have p0: "1 \<in> q_id ` set (questions ledger_db)"
    by (simp add: ledger_db_def)
  have n0: "findVote 7 1 ledger_db = None"
    by (simp add: ledger_db_def findVote_def)
  have s0: "getQuestionStats 1 ledger_db = (0, 0)"
    by (simp add: ledger_db_def getQuestionStats_def)
  note t0 = addVote_transition[OF p0, of 7 True]
  let ?d1 = "addVote 7 1 True ledger_db"
  have p1: "1 \<in> q_id ` set (questions ?d1)"
    by (simp add: ledger_db_def addVote_def findVote_def update_where_def)
  have s1: "getQuestionStats 1 ?d1 = (1, 0)" using t0 n0 s0 by simp
  have v1: "map_option vote (findVote 7 1 ?d1) = Some 1" using t0 n0 by simp
  then obtain e where e: "findVote 7 1 ?d1 = Some e" "vote e = 1" by auto
  note t1 = addVote_transition[OF p1, of 7 False]
  have s2: "getQuestionStats 1 (addVote 7 1 False ?d1) = (0, 1)"
    using t1 e s1 by simp
  have v2: "map_option vote (findVote 7 1 (addVote 7 1 False ?d1)) = Some (- 1)"
    using t1 e by simp
  have i1: "addVote 7 1 True ?d1 = ?d1" using t0 by blast
  have sq: "getQuestionStats 1 (fold (addVote 7 1) [True, True, False, True] ledger_db) = (1, 0)"
  proof -
    from t0 have "\<forall>ps. ps \<noteq> [] \<and> findVote 7 1 ledger_db = None \<longrightarrow>
            getQuestionStats 1 (fold (addVote 7 1) ps ledger_db)
              = (if last ps
                 then (fst (getQuestionStats 1 ledger_db) + 1, snd (getQuestionStats 1 ledger_db))
                 else (fst (getQuestionStats 1 ledger_db), snd (getQuestionStats 1 ledger_db) + 1))"
      by blast
    from this[rule_format, of "[True, True, False, True]"] n0 s0 show ?thesis by simp
  qed
  show ?thesis using p0 n0 s1 v1 i1 s2 v2 sq by simp
qed

section \<open>Quality ledger: consistency of counters and votes\<close>

lemma update_where_id: "(\<And>r. r \<in> set rows \<Longrightarrow> \<not> P r) \<Longrightarrow> update_where P f rows = rows"
  by (induction rows) (auto simp: update_where_def)

lemma update_where_unique:
  assumes "distinct (map k rows)" "e \<in> set rows"
  shows "\<exists>xs ys. rows = xs @ e # ys \<and> update_where (\<lambda>r. k r = k e) f rows = xs @ f e # ys
          \<and> (\<forall>x \<in> set xs \<union> set ys. k x \<noteq> k e)"
proof -
  from assms(2) obtain xs ys where sp: "rows = xs @ e # ys" by (auto dest: split_list)
  with assms(1) have "k e \<notin> k ` set xs" "k e \<notin> k ` set ys" by auto
  then have nk: "\<forall>x \<in> set xs \<union> set ys. k x \<noteq> k e" by (metis UnE imageI)
  then have "update_where (\<lambda>r. k r = k e) f xs = xs" "update_where (\<lambda>r. k r = k e) f ys = ys"
    by (auto intro: update_where_id)
  then have "update_where (\<lambda>r. k r = k e) f rows = xs @ f e # ys"
    using sp by (simp add: update_where_def)
  with sp nk show ?thesis by blast
qed

lemma findVote_Some:
  "findVote u q d = Some e \<Longrightarrow> e \<in> set (votes d) \<and> v_user_id e = u \<and> v_question_id e = q"
  by (auto simp: findVote_def find_Some_iff)

lemma findVote_None:
  "findVote u q d = None \<Longrightarrow> (u, q) \<notin> (\<lambda>v. (v_user_id v, v_question_id v)) ` set (votes d)"
  by (auto simp: findVote_def find_None_iff)

lemma addVote_seq: "questions_seq (addVote u q p d) = questions_seq d"
  by (simp add: addVote_def Let_def split: option.splits)

lemma addVote_progress: "user_progress (addVote u q p d) = user_progress d"
  by (simp add: addVote_def Let_def split: option.splits)

lemma addVote_votes:
  "votes (addVote u q p d) =
     (case findVote u q d of
        None \<Rightarrow> votes d @ [\<lparr>v_user_id = u, v_question_id = q, vote = (if p then 1 else - 1)\<rparr>]
      | Some e \<Rightarrow> if vote e = (if p then 1 else - 1) then votes d
                  else update_where (\<lambda>v. v_user_id v = u \<and> v_question_id v = q)
                         (\<lambda>v. v\<lparr>vote := (if p then 1 else - 1)\<rparr>) (votes d))"
  by (simp add: addVote_def Let_def split: option.splits)

lemma addVote_questions:
  "questions (addVote u q p d) =
     (case findVote u q d of
        None \<Rightarrow> update_where (\<lambda>x. q_id x = q)
                  (\<lambda>x. if p then x\<lparr>thumbs_up := thumbs_up x + 1\<rparr>
                       else x\<lparr>thumbs_down := thumbs_down x + 1\<rparr>) (questions d)
      | Some e \<Rightarrow> if vote e = (if p then 1 else - 1) then questions d
                  else update_where (\<lambda>x. q_id x = q)
                         (\<lambda>x. if p then x\<lparr>thumbs_up := thumbs_up x + 1, thumbs_down := thumbs_down x - 1\<rparr>
                              else x\<lparr>thumbs_down := thumbs_down x + 1, thumbs_up := thumbs_up x - 1\<rparr>)
                         (questions d))"
  by (simp add: addVote_def Let_def update_where_def split: option.splits)

lemma addVote_vote_keys:
  "distinct (map (\<lambda>v. (v_user_id v, v_question_id v)) (votes d)) \<Longrightarrow>
   distinct (map (\<lambda>v. (v_user_id v, v_question_id v)) (votes (addVote u q p d)))"
  by (auto simp: addVote_votes map_update_where dest: findVote_None split: option.splits)

lemma keys_ok_addVote: "keys_ok d \<Longrightarrow> keys_ok (addVote u q p d)"
proof -
  assume k: "keys_ok d"
  have "set (map q_id (questions (addVote u q p d))) = set (map q_id (questions d))"
    by (simp only: addVote_ids)
  then have im: "q_id ` set (questions (addVote u q p d)) = q_id ` set (questions d)"
    by simp
  have "\<forall>x \<in> set (questions (addVote u q p d)). q_id x \<le> questions_seq d"
  proof
    fix x assume "x \<in> set (questions (addVote u q p d))"
    then have "q_id x \<in> q_id ` set (questions d)" using im by blast
    then show "q_id x \<le> questions_seq d" using k by (auto simp: keys_ok_def)
  qed
  then show ?thesis
    using k addVote_vote_keys[of d u q p]
    by (simp add: keys_ok_def addVote_ids addVote_seq addVote_progress)
qed

lemma votes_ok_addVote:
  assumes "votes_ok d" "q \<in> q_id ` set (questions d)" "keys_ok d"
  shows "votes_ok (addVote u q p d)"
proof -
  have q: "q \<le> questions_seq d" using assms(2,3) by (auto simp: keys_ok_def)
  show ?thesis
    using assms(1) q
    by (auto simp: votes_ok_def addVote_votes addVote_seq update_where_def split: option.splits if_splits)
qed

lemma count_append:
  "length (filter P (xs @ [x])) = length (filter P xs) + (if P x then 1 else 0)"
  by simp

lemma ledger_consistent_addVote:
  assumes inv: "keys_ok d" "votes_ok d" "ledger_consistent d"
  shows "ledger_consistent (addVote u q p d)"
proof (cases "findVote u q d")
  case None
  show ?thesis
    using inv(3) None
    by (auto simp: ledger_consistent_def count_votes_def addVote_def Let_def update_where_def)
next
  case (Some e)
  note fe = findVote_Some[OF Some]
  show ?thesis
  proof (cases "vote e = (if p then 1 else - 1)")
    case True
    then show ?thesis using inv(3) Some by (simp add: addVote_def Let_def)
  next
    case False
    have pol: "vote e = 1 \<or> vote e = - 1" using inv(2) fe by (auto simp: votes_ok_def)
    have dk: "distinct (map (\<lambda>v. (v_user_id v, v_question_id v)) (votes d))"
      using inv(1) by (simp add: keys_ok_def)
    have P: "(\<lambda>v. v_user_id v = u \<and> v_question_id v = q)
             = (\<lambda>r. (v_user_id r, v_question_id r) = (v_user_id e, v_question_id e))"
      using fe by auto
    from update_where_unique[OF dk, of e "\<lambda>v. v\<lparr>vote := (if p then 1 else - 1)\<rparr>"] fe
    obtain xs ys where sp: "votes d = xs @ e # ys"
      and up: "update_where (\<lambda>v. v_user_id v = u \<and> v_question_id v = q)
                 (\<lambda>v. v\<lparr>vote := (if p then 1 else - 1)\<rparr>) (votes d)
               = xs @ e\<lparr>vote := (if p then 1 else - 1)\<rparr> # ys"
      unfolding P by blast
    have cnt: "\<And>q' x. count_votes q' x (addVote u q p d)
                 = count_votes q' x d + (if q' = q \<and> x = (if p then 1 else - 1) then 1 else 0)
                     - (if q' = q \<and> x = vote e then 1 else 0)"
    proof -
      fix q' x
      have v': "votes (addVote u q p d) = xs @ e\<lparr>vote := (if p then 1 else - 1)\<rparr> # ys"
        using False by (simp add: addVote_votes Some up)
      show "count_votes q' x (addVote u q p d)
                 = count_votes q' x d + (if q' = q \<and> x = (if p then 1 else - 1) then 1 else 0)
                     - (if q' = q \<and> x = vote e then 1 else 0)"
        unfolding count_votes_def v' sp using False fe pol by auto
    qed
    show ?thesis
      unfolding ledger_consistent_def
    proof
      fix x assume x: "x \<in> set (questions (addVote u q p d))"
      show "thumbs_up x = count_votes (q_id x) 1 (addVote u q p d) \<and>
            thumbs_down x = count_votes (q_id x) (- 1) (addVote u q p d)"
        using x[unfolded addVote_questions] inv(3) False pol
        by (auto simp: Some cnt ledger_consistent_def update_where_def split: if_splits)
    qed
  qed
qed

lemma ledger_inv_addVote:
  "ledger_inv d \<Longrightarrow> q \<in> q_id ` set (questions d) \<Longrightarrow> ledger_inv (addVote u q p d)"
  by (simp add: ledger_inv_def keys_ok_addVote votes_ok_addVote ledger_consistent_addVote)

lemma ledger_inv_deleteQuestion: "ledger_inv d \<Longrightarrow> ledger_inv (deleteQuestion q d)"
  unfolding ledger_inv_def
proof (intro conjI)
  assume a: "keys_ok d \<and> votes_ok d \<and> ledger_consistent d"
  show "keys_ok (deleteQuestion q d)"
    using a by (auto simp: keys_ok_def deleteQuestion_def distinct_map_filter)
  show "votes_ok (deleteQuestion q d)"
    using a by (auto simp: votes_ok_def deleteQuestion_def)
  show "ledger_consistent (deleteQuestion q d)"
    using a
    by (auto simp: ledger_consistent_def deleteQuestion_def count_votes_def
        intro!: arg_cong[where f=length] filter_cong)
qed

lemma ledger_inv_clearQuestions: "ledger_inv d \<Longrightarrow> ledger_inv (clearQuestions k d)"
  by (auto simp: ledger_inv_def keys_ok_def votes_ok_def ledger_consistent_def clearQuestions_def
      count_votes_def distinct_map_filter)

lemma ledger_inv_saveQuestion:
  assumes "ledger_inv d"
  shows "ledger_inv (snd (saveQuestion now k t os ci d))"
    and "count_votes (fst (saveQuestion now k t os ci d)) v (snd (saveQuestion now k t os ci d)) = 0"
    and "getQuestionStats (fst (saveQuestion now k t os ci d)) (snd (saveQuestion now k t os ci d)) = (0, 0)"
proof -
  have k: "keys_ok d" and v: "votes_ok d" and l: "ledger_consistent d"
    using assms by (simp_all add: ledger_inv_def)
  have fresh: "questions_seq d + 1 \<notin> q_id ` set (questions d)"
    using k by (auto simp: keys_ok_def)
  have nov: "\<And>x. filter (\<lambda>r. v_question_id r = questions_seq d + 1 \<and> vote r = x) (votes d) = []"
    using v by (auto simp: votes_ok_def filter_empty_conv)
  show "count_votes (fst (saveQuestion now k t os ci d)) v (snd (saveQuestion now k t os ci d)) = 0"
    by (simp add: saveQuestion_def Let_def count_votes_def nov)
  have "find (\<lambda>x. q_id x = questions_seq d + 1) (questions d) = None"
    using fresh by (force simp: find_None_iff)
  then show "getQuestionStats (fst (saveQuestion now k t os ci d)) (snd (saveQuestion now k t os ci d)) = (0, 0)"
    by (simp add: saveQuestion_def Let_def getQuestionStats_def find_append_new)
  have "keys_ok (snd (saveQuestion now k t os ci d))"
    using k fresh by (auto simp: keys_ok_def saveQuestion_def Let_def)
  moreover have "votes_ok (snd (saveQuestion now k t os ci d))"
    using v by (auto simp: votes_ok_def saveQuestion_def Let_def)
  moreover have "ledger_consistent (snd (saveQuestion now k t os ci d))"
    using l by (auto simp: ledger_consistent_def saveQuestion_def Let_def count_votes_def nov)
  ultimately show "ledger_inv (snd (saveQuestion now k t os ci d))"
    by (simp add: ledger_inv_def)
qed

lemma ledger_inv_empty: "ledger_inv empty_db"
  by (simp add: ledger_inv_def keys_ok_def votes_ok_def ledger_consistent_def empty_db_def)

text \<open>
  C10. Ledger consistency. \<open>ledger_inv\<close> is the consistency predicate (each stored
  question's counters equal the numbers of its stored up and down votes) together with what
  makes it inductive: the schema's key constraints, and that every vote row carries 1 or -1
  and the id of a question that has been created, which is the assumption that votes are
  only applied to questions present in the store. It holds of the empty store; in a store
  that satisfies it the counters are consistent, a freshly saved question has counters
  (0, 0) and no votes, and it is preserved by saving a question, by a vote on a stored
  question and by both ways of deleting questions.
\<close>

theorem ledger_invariant:
  "ledger_inv empty_db
   \<and> (ledger_inv d \<longrightarrow>
        ledger_consistent d
        \<and> ledger_inv (snd (saveQuestion now studyKey qtext opts correctIndex d))
        \<and> getQuestionStats (fst (saveQuestion now studyKey qtext opts correctIndex d))
            (snd (saveQuestion now studyKey qtext opts correctIndex d)) = (0, 0)
        \<and> count_votes (fst (saveQuestion now studyKey qtext opts correctIndex d)) 1
            (snd (saveQuestion now studyKey qtext opts correctIndex d)) = 0
        \<and> count_votes (fst (saveQuestion now studyKey qtext opts correctIndex d)) (- 1)
            (snd (saveQuestion now studyKey qtext opts correctIndex d)) = 0
        \<and> (questionId \<in> q_id ` set (questions d) \<longrightarrow>
             ledger_inv (addVote userId questionId isUpvote d))
        \<and> ledger_inv (deleteQuestion questionId d)
        \<and> ledger_inv (clearQuestions studyKey d))"
proof (intro conjI impI)
  show "ledger_inv empty_db" by (rule ledger_inv_empty)
next
  assume inv: "ledger_inv d"
  show "ledger_consistent d" using inv by (simp add: ledger_inv_def)
  show "ledger_inv (snd (saveQuestion now studyKey qtext opts correctIndex d))"
    by (rule ledger_inv_saveQuestion(1)[OF inv])
  show "getQuestionStats (fst (saveQuestion now studyKey qtext opts correctIndex d))
            (snd (saveQuestion now studyKey qtext opts correctIndex d)) = (0, 0)"
    by (rule ledger_inv_saveQuestion(3)[OF inv])
  show "count_votes (fst (saveQuestion now studyKey qtext opts correctIndex d)) 1
            (snd (saveQuestion now studyKey qtext opts correctIndex d)) = 0"
    by (rule ledger_inv_saveQuestion(2)[OF inv])
  show "count_votes (fst (saveQuestion now studyKey qtext opts correctIndex d)) (- 1)
            (snd (saveQuestion now studyKey qtext opts correctIndex d)) = 0"
    by (rule ledger_inv_saveQuestion(2)[OF inv])
  show "ledger_inv (deleteQuestion questionId d)"
    by (rule ledger_inv_deleteQuestion[OF inv])
  show "ledger_inv (clearQuestions studyKey d)"
    by (rule ledger_inv_clearQuestions[OF inv])
next
  assume "ledger_inv d" "questionId \<in> q_id ` set (questions d)"
  then show "ledger_inv (addVote userId questionId isUpvote d)"
    by (rule ledger_inv_addVote)
qed

theorem ledger_invariant_witness:
  "ledger_inv orphan_db
   \<and> 1 \<in> q_id ` set (questions orphan_db)
   \<and> getQuestionStats 1 orphan_db = (1, 0)
   \<and> ledger_consistent (addVote 8 1 False orphan_db)
   \<and> getQuestionStats 1 (addVote 8 1 False orphan_db) = (1, 1)
   \<and> ledger_consistent (deleteQuestion 1 orphan_db)
   \<and> ledger_consistent (clearQuestions ''physics'' orphan_db)
   \<and> ledger_consistent (snd (saveQuestion 5 ''physics'' ''R'' [''x'', ''y''] 1 orphan_db))"
proof -
  have h: "ledger_inv orphan_db"
    by (simp add: ledger_inv_def keys_ok_def votes_ok_def ledger_consistent_def count_votes_def
        orphan_db_def)
  have p: "1 \<in> q_id ` set (questions orphan_db)"
    by (simp add: orphan_db_def)
  have s: "getQuestionStats 1 orphan_db = (1, 0)"
    by (simp add: orphan_db_def getQuestionStats_def)
  have s': "getQuestionStats 1 (addVote 8 1 False orphan_db) = (1, 1)"
    by (simp add: orphan_db_def getQuestionStats_def addVote_def findVote_def update_where_def)
  note t = ledger_invariant[of orphan_db 5 "''physics''" "''R''" "[''x'', ''y'']" 1 1 8 False]
  from t h p have
    "ledger_inv (addVote 8 1 False orphan_db)"
    "ledger_inv (deleteQuestion 1 orphan_db)"
    "ledger_inv (clearQuestions ''physics'' orphan_db)"
    "ledger_inv (snd (saveQuestion 5 ''physics'' ''R'' [''x'', ''y''] 1 orphan_db))"
    by blast+
  then show ?thesis using h p s s' by (simp add: ledger_inv_def)
qed

section \<open>Quality ledger: rating\<close>

lemma rating_nonneg:
  "0 \<le> a \<Longrightarrow> 0 \<le> r \<Longrightarrow> rating a r = Some ((of_int a + 1) / (of_int a + of_int r + 2))"
proof -
  assume "0 \<le> a" "0 \<le> r"
  then have "(of_int a + of_int r + 2 :: rat) > 0" by (simp add: add_nonneg_pos add_nonneg_nonneg)
  then show ?thesis by (simp add: rating_def Let_def)
qed

lemma laplace_bounds:
  assumes "0 \<le> a" "0 \<le> r"
  shows "0 < (of_int a + 1) / (of_int a + of_int r + 2 :: rat)"
    and "(of_int a + 1) / (of_int a + of_int r + 2 :: rat) < 1"
proof -
  have a: "(0::rat) \<le> of_int a" and r: "(0::rat) \<le> of_int r" using assms by simp_all
  then show "0 < (of_int a + 1) / (of_int a + of_int r + 2 :: rat)"
    by (intro divide_pos_pos) linarith+
  have "(of_int a + of_int r + 2 :: rat) > 0" using a r by linarith
  then show "(of_int a + 1) / (of_int a + of_int r + 2 :: rat) < 1"
    using a r by (simp add: divide_simps)
qed

lemma laplace_mono:
  assumes "0 \<le> a" "0 \<le> r" "a < a'"
  shows "(of_int a + 1) / (of_int a + of_int r + 2 :: rat) < (of_int a' + 1) / (of_int a' + of_int r + 2)"
proof -
  have a: "(0::rat) \<le> of_int a" and r: "(0::rat) \<le> of_int r" and l: "(of_int a :: rat) < of_int a'"
    using assms by simp_all
  have p1: "(of_int a + of_int r + 2 :: rat) > 0" using a r by linarith
  have p2: "(of_int a' + of_int r + 2 :: rat) > 0" using a r l by linarith
  have "(of_int a + 1) * (of_int a' + of_int r + 2) < (of_int a' + 1) * (of_int a + of_int r + 2 :: rat)"
  proof -
    have "(of_int a' + 1) * (of_int a + of_int r + 2 :: rat) - (of_int a + 1) * (of_int a' + of_int r + 2)
          = (of_int a' - of_int a) * (of_int r + 1)" by (simp add: algebra_simps)
    moreover have "(of_int a' - of_int a) * (of_int r + 1 :: rat) > 0"
      using l r by (intro mult_pos_pos) linarith+
    ultimately show ?thesis by linarith
  qed
  then show ?thesis using p1 p2 by (simp add: divide_simps)
qed

lemma laplace_anti:
  assumes "0 \<le> a" "0 \<le> r" "r < r'"
  shows "(of_int a + 1) / (of_int a + of_int r' + 2 :: rat) < (of_int a + 1) / (of_int a + of_int r + 2)"
proof -
  have a: "(0::rat) \<le> of_int a" and r: "(0::rat) \<le> of_int r" and l: "(of_int r :: rat) < of_int r'"
    using assms by simp_all
  have p1: "(of_int a + of_int r + 2 :: rat) > 0" using a r by linarith
  have "(of_int a + of_int r + 2 :: rat) < of_int a + of_int r' + 2" using l by linarith
  moreover have "(0::rat) < of_int a + 1" using a by linarith
  ultimately show ?thesis using p1 by (simp add: divide_strict_left_mono mult_pos_pos)
qed

lemma round_even_le:
  assumes "y \<le> of_int N"
  shows "round_even y \<le> N"
proof -
  have f: "\<lfloor>y\<rfloor> \<le> N" using assms by (simp add: floor_le_iff)
  show ?thesis
  proof (cases "\<lfloor>y\<rfloor> = N")
    case True
    have "of_int \<lfloor>y\<rfloor> \<le> y" by simp
    moreover have "y \<le> of_int \<lfloor>y\<rfloor>" using assms True by simp
    ultimately have "y - of_int \<lfloor>y\<rfloor> = 0" by linarith
    then show ?thesis using True by (simp add: round_even_def Let_def)
  next
    case False
    then have "\<lfloor>y\<rfloor> + 1 \<le> N" using f by simp
    then show ?thesis using f by (simp add: round_even_def Let_def)
  qed
qed

lemma round_even_nonneg: "0 \<le> y \<Longrightarrow> 0 \<le> round_even y"
  by (simp add: round_even_def Let_def)

lemma binade_lower:
  assumes "0 < x"
  shows "2 powi binade x \<le> x"
proof -
  obtain p q where pq: "quotient_of x = (p, q)" by (cases "quotient_of x")
  have q: "0 < q" using pq by (rule quotient_of_denom_pos)
  have x: "x = of_int p / of_int q" using pq by (rule quotient_of_div)
  have p: "0 < p" using assms q x by (simp add: zero_less_divide_iff)
  let ?k = "bitlen p - bitlen q"
  have bp: "2 ^ nat (bitlen p - 1) \<le> p" using bitlen_bounds[OF p] by simp
  have bq: "q \<le> 2 ^ nat (bitlen q)" using bitlen_bounds[OF q] by simp
  have bp1: "1 \<le> bitlen p" using p by (auto simp: bitlen_alt_def)
  have bq0: "0 \<le> bitlen q" by (rule bitlen_nonneg)
  have "(2::rat) powi (?k - 1) \<le> x"
  proof -
    have a: "(2::rat) powi (bitlen p - 1) \<le> of_int p"
    proof -
      have "(of_int (2 ^ nat (bitlen p - 1)) :: rat) \<le> of_int p"
        using bp by (simp only: of_int_le_iff)
      then show ?thesis using bp1 by (simp add: power_int_def)
    qed
    have b: "(of_int q :: rat) \<le> 2 powi bitlen q"
    proof -
      have "(of_int q :: rat) \<le> of_int (2 ^ nat (bitlen q))"
        using bq by (simp only: of_int_le_iff)
      then show ?thesis using bq0 by (simp add: power_int_def)
    qed
    have "(2::rat) powi (?k - 1) = 2 powi (bitlen p - 1) / 2 powi bitlen q"
      by (simp add: power_int_diff)
    also have "\<dots> \<le> of_int p / 2 powi bitlen q"
      using a by (simp add: divide_right_mono)
    also have "\<dots> \<le> of_int p / of_int q"
      using b p q by (intro divide_left_mono) simp_all
    finally show ?thesis by (simp add: x)
  qed
  then show ?thesis using pq by (simp add: binade_def Let_def)
qed

lemma round_double_nonneg: "0 \<le> x \<Longrightarrow> 0 \<le> round_double x"
  by (simp add: round_double_def Let_def round_even_nonneg)

text \<open>Rounding to a double never crosses an integer of magnitude below \<open>2^53\<close>.\<close>

lemma round_double_le_int:
  assumes "0 \<le> x" "x \<le> of_int c" "x < 2 powi 53"
  shows "round_double x \<le> of_int c"
proof (cases "x = 0")
  case True
  then show ?thesis using assms by (simp add: round_double_def)
next
  case False
  then have x: "0 < x" using assms(1) by simp
  let ?e = "binade x"
  let ?ulp = "(2::rat) powi (?e - 52)"
  have "(2::rat) powi ?e < 2 powi 53" using binade_lower[OF x] assms(3) by simp
  then have e: "?e < 53" by (rule power_int_le_imp_less_exp[rotated]) simp_all
  have ulp: "0 < ?ulp" by simp
  have inv: "1 / ?ulp = of_int (2 ^ nat (52 - ?e))"
  proof -
    have "1 / ?ulp = (2::rat) powi (52 - ?e)" by (simp add: power_int_diff)
    also have "\<dots> = 2 ^ nat (52 - ?e)" using e by (simp add: power_int_def)
    finally show ?thesis by simp
  qed
  have "x / ?ulp \<le> of_int c / ?ulp" using assms(2) ulp by (simp add: divide_right_mono)
  also have "\<dots> = of_int (c * 2 ^ nat (52 - ?e))" using inv by (simp add: divide_inverse)
  finally have "round_even (x / ?ulp) \<le> c * 2 ^ nat (52 - ?e)" by (rule round_even_le)
  then have "(of_int (round_even (x / ?ulp)) :: rat) \<le> of_int (c * 2 ^ nat (52 - ?e))"
    by (simp only: of_int_le_iff)
  then have "of_int (round_even (x / ?ulp)) * ?ulp \<le> of_int (c * 2 ^ nat (52 - ?e)) * ?ulp"
    using ulp by (simp only: mult_le_cancel_right_pos)
  also have "of_int (c * 2 ^ nat (52 - ?e)) * ?ulp = of_int c * ((1 / ?ulp) * ?ulp)"
    by (simp add: inv)
  also have "\<dots> = of_int c" using ulp by simp
  finally show ?thesis using x by (simp add: round_double_def Let_def)
qed

lemma handler_rating_range:
  assumes "0 \<le> a" "0 \<le> r"
  shows "0 \<le> handler_rating (a, r)" "handler_rating (a, r) \<le> 100"
proof -
  show "0 \<le> handler_rating (a, r)"
    using assms by (simp add: handler_rating_def Let_def js_round_def round_double_nonneg)
  show "handler_rating (a, r) \<le> 100"
  proof (cases "0 < a + r")
    case False
    then show ?thesis by (simp add: handler_rating_def Let_def)
  next
    case True
    let ?x = "of_int a / of_int (a + r) :: rat"
    have x0: "0 \<le> ?x" using assms by simp
    have "(of_int a :: rat) \<le> of_int (a + r)" using assms by simp
    then have x1: "?x \<le> of_int 1" using True by (simp add: divide_simps)
    have y1: "round_double ?x \<le> of_int 1"
      using x0 x1 by (rule round_double_le_int) (use x1 in simp)
    have y0: "0 \<le> round_double ?x" using x0 by (rule round_double_nonneg)
    have z0: "0 \<le> round_double ?x * 100" using y0 by simp
    have z1: "round_double ?x * 100 \<le> of_int 100" using y1 by simp
    have "round_double (round_double ?x * 100) \<le> of_int 100"
      using z0 z1 by (rule round_double_le_int) (use z1 in simp)
    then have "round_double (round_double ?x * 100) + 1 / 2 < 101" by simp
    then have "\<lfloor>round_double (round_double ?x * 100) + 1 / 2\<rfloor> < 101"
      by (simp only: floor_less_iff)
    then show ?thesis using True by (simp add: handler_rating_def Let_def js_round_def)
  qed
qed

text \<open>
  The handler rounds the double, not the exact percentage: for 23 up votes and 17 down
  votes the quotient 0.575 and the product with 100 are rounded to the double
  57.49999999999999, and the handler shows 57; the exact percentage 57.5 rounds to 58.
\<close>

lemma handler_rating_rounds_double:
  "handler_rating (23, 17) = 57 \<and> js_round (23 / 40 * 100) = 58"
  by code_simp

text \<open>
  C2 (as amended). For counters \<open>a, r \<ge> 0\<close> the rating by which \<open>getQuestions\<close> and
  \<open>getRandomQuestion\<close> order questions is \<open>(a + 1) / (a + r + 2)\<close>, computed without a
  division by zero; it lies strictly between 0 and 1, is 1/2 at \<open>a = r = 0\<close>, grows
  strictly with \<open>a\<close> and falls strictly with \<open>r\<close>. The percentage the bot shows to users
  is a different value: 0 when there is no vote, and otherwise
  \<open>Math.round((a / (a + r)) * 100)\<close> as double arithmetic computes it (the quotient
  rounded to a double, its product with 100 rounded to a double, the result rounded to
  the nearest integer, halves up); it lies between 0 and 100.
\<close>

theorem rating_smoothed:
  assumes "0 \<le> a" and "0 \<le> r"
  shows
    "rating a r = Some ((of_int a + 1) / (of_int a + of_int r + 2))
     \<and> Some 0 < rating a r \<and> rating a r < Some 1
     \<and> rating 0 0 = Some (1 / 2)
     \<and> (\<forall>a'. a < a' \<longrightarrow> rating a r < rating a' r)
     \<and> (\<forall>r'. r < r' \<longrightarrow> rating a r' < rating a r)
     \<and> handler_rating (a, r)
         = (if 0 < a + r
            then js_round (round_double (round_double (of_int a / of_int (a + r)) * 100))
            else 0)
     \<and> 0 \<le> handler_rating (a, r) \<and> handler_rating (a, r) \<le> 100"
proof (intro conjI allI impI)
  show eq: "rating a r = Some ((of_int a + 1) / (of_int a + of_int r + 2))"
    by (rule rating_nonneg[OF assms])
  show "Some 0 < rating a r" using laplace_bounds(1)[OF assms] by (simp add: eq)
  show "rating a r < Some 1" using laplace_bounds(2)[OF assms] by (simp add: eq)
  show "rating 0 0 = Some (1 / 2)" by (simp add: rating_def)
  show "handler_rating (a, r)
         = (if 0 < a + r
            then js_round (round_double (round_double (of_int a / of_int (a + r)) * 100))
            else 0)"
    by (simp add: handler_rating_def Let_def)
  show "0 \<le> handler_rating (a, r)" by (rule handler_rating_range(1)[OF assms])
  show "handler_rating (a, r) \<le> 100" by (rule handler_rating_range(2)[OF assms])
next
  fix a' assume l: "a < a'"
  then have "0 \<le> a'" using assms by simp
  then show "rating a r < rating a' r"
    using laplace_mono[OF assms l] by (simp add: rating_nonneg assms)
next
  fix r' assume l: "r < r'"
  then have "0 \<le> r'" using assms by simp
  then show "rating a r' < rating a r"
    using laplace_anti[OF assms l] by (simp add: rating_nonneg assms)
qed

theorem rating_smoothed_witness:
  "(0::int) \<le> 1 \<and> (0::int) \<le> 2
   \<and> rating 1 2 = Some (2 / 5) \<and> rating 1 2 < rating 2 2 \<and> rating 1 3 < rating 1 2
   \<and> handler_rating (1, 2) = 33"
proof -
  have h: "(0::int) \<le> 1" "(0::int) \<le> 2" by simp_all
  note t = rating_smoothed[OF h]
  have "rating 1 2 = Some (2 / 5)" using t by simp
  moreover have "rating 1 2 < rating 2 2"
  proof -
    have "\<forall>a'. 1 < a' \<longrightarrow> rating 1 2 < rating a' 2" using t by blast
    from this[rule_format, of 2] show ?thesis by simp
  qed
  moreover have "rating 1 3 < rating 1 2"
  proof -
    have "\<forall>r'. 2 < r' \<longrightarrow> rating 1 r' < rating 1 2" using t by blast
    from this[rule_format, of 3] show ?thesis by simp
  qed
  moreover have "handler_rating (1, 2) = 33"
  proof -
    have e: "handler_rating (1, 2)
         = (if (0::int) < 1 + 2
            then js_round (round_double (round_double (of_int 1 / of_int (1 + 2)) * 100))
            else 0)"
      using t by blast
    have "(if (0::int) < 1 + 2
            then js_round (round_double (round_double (of_int 1 / of_int (1 + 2)) * 100))
            else 0) = 33"
      by code_simp
    then show ?thesis by (simp only: e)
  qed
  ultimately show ?thesis by simp
qed

text \<open>
  C2 as stated fails on the value surfaced to users: for a question without votes the
  smoothed rating is 1/2, which as a rounded percentage is 50, and the handler shows 0;
  with three up votes and no down vote the smoothed rating is 4/5 and the handler shows 100.
\<close>

theorem handler_rating_counterexample:
  "rating 0 0 = Some (1 / 2) \<and> js_round (1 / 2 * 100) = 50
   \<and> handler_rating (getQuestionStats 1 ledger_db) = 0
   \<and> rating 3 0 = Some (4 / 5) \<and> js_round (4 / 5 * 100) = 80 \<and> handler_rating (3, 0) = 100"
  by code_simp

section \<open>Selection engine\<close>

lemma first_row_sort_key:
  assumes "first_row (sort_key f xs) = Some x"
  shows "x \<in> set xs" "\<And>y. y \<in> set xs \<Longrightarrow> f x \<le> f y"
proof -
  from assms obtain rest where s: "sort_key f xs = x # rest"
    by (cases "sort_key f xs") (simp_all add: first_row_def)
  have "set (sort_key f xs) = set xs" by simp
  then have sx: "set xs = insert x (set rest)" by (simp add: s)
  then show "x \<in> set xs" by simp
  have "sorted (map f (sort_key f xs))" by simp
  then have "\<forall>y \<in> set rest. f x \<le> f y" by (simp add: s)
  then show "\<And>y. y \<in> set xs \<Longrightarrow> f x \<le> f y" using sx by auto
qed

lemma first_row_sort_key_ex: "xs \<noteq> [] \<Longrightarrow> \<exists>x. first_row (sort_key f xs) = Some x"
proof -
  assume "xs \<noteq> []"
  then have "length (sort_key f xs) \<noteq> 0" by simp
  then show ?thesis by (cases "sort_key f xs") (simp_all add: first_row_def)
qed

lemma lex_le:
  "((a::'a::linorder, b::'b::linorder) \<le> (c, d)) = (a < c \<or> (a = c \<and> b \<le> d))"
  by (auto simp: less_eq_prod_def)

lemma desc_key_le: "(desc_key a \<le> desc_key b) = (b \<le> a)"
  by (cases a; cases b) (simp_all add: desc_key_def less_eq_prod_def)

lemma query_unused_choice:
  assumes "unused_rows studyKey userId d \<noteq> []"
  shows "\<exists>k < length (unused_rows studyKey userId d).
           query_unused rnd studyKey userId d = Some (unused_rows studyKey userId d ! k)
           \<and> (\<forall>j < length (unused_rows studyKey userId d).
                 weight (unused_rows studyKey userId d ! j) \<le> weight (unused_rows studyKey userId d ! k)
                 \<and> (weight (unused_rows studyKey userId d ! j) = weight (unused_rows studyKey userId d ! k)
                      \<longrightarrow> rnd k \<le> rnd j))"
proof -
  let ?U = "unused_rows studyKey userId d"
  let ?Z = "zip ?U (map rnd [0..<length ?U])"
  let ?key = "\<lambda>p. (desc_key (weight (fst p)), snd p)"
  have zn: "\<And>j. j < length ?U \<Longrightarrow> ?Z ! j = (?U ! j, rnd j)" by simp
  have lz: "length ?Z = length ?U" by simp
  have "?Z \<noteq> []" using assms lz by (metis length_0_conv)
  then obtain p where p: "first_row (sort_key ?key ?Z) = Some p"
    using first_row_sort_key_ex by blast
  from first_row_sort_key(1)[OF p] obtain k where k: "k < length ?U" "p = (?U ! k, rnd k)"
    using zn lz by (metis in_set_conv_nth)
  have min: "\<And>j. j < length ?U \<Longrightarrow> ?key p \<le> ?key (?U ! j, rnd j)"
  proof -
    fix j assume j: "j < length ?U"
    then have "(?U ! j, rnd j) \<in> set ?Z" using zn lz by (metis nth_mem)
    then show "?key p \<le> ?key (?U ! j, rnd j)" by (rule first_row_sort_key(2)[OF p])
  qed
  have "\<forall>j < length ?U. weight (?U ! j) \<le> weight (?U ! k)
                 \<and> (weight (?U ! j) = weight (?U ! k) \<longrightarrow> rnd k \<le> rnd j)"
  proof (intro allI impI)
    fix j assume j: "j < length ?U"
    from min[OF j] have le: "(desc_key (weight (?U ! k)), rnd k) \<le> (desc_key (weight (?U ! j)), rnd j)"
      by (simp add: k(2))
    then have le': "desc_key (weight (?U ! k)) < desc_key (weight (?U ! j))
        \<or> (desc_key (weight (?U ! k)) = desc_key (weight (?U ! j)) \<and> rnd k \<le> rnd j)"
      by (simp only: lex_le)
    then have "desc_key (weight (?U ! k)) \<le> desc_key (weight (?U ! j))"
      by (auto simp: less_imp_le)
    then have a: "weight (?U ! j) \<le> weight (?U ! k)" by (simp only: desc_key_le)
    have b: "weight (?U ! j) = weight (?U ! k) \<longrightarrow> rnd k \<le> rnd j"
      using le' by auto
    show "weight (?U ! j) \<le> weight (?U ! k)
                 \<and> (weight (?U ! j) = weight (?U ! k) \<longrightarrow> rnd k \<le> rnd j)"
      using a b by simp
  qed
  moreover have "query_unused rnd studyKey userId d = Some (?U ! k)"
    using p k(2) by (simp add: query_unused_def Let_def)
  ultimately show ?thesis using k(1) by blast
qed

lemma query_unused_any_tied:
  assumes j: "j < length (unused_rows studyKey userId d)"
    and mx: "\<forall>i < length (unused_rows studyKey userId d).
               weight (unused_rows studyKey userId d ! i) \<le> weight (unused_rows studyKey userId d ! j)"
  shows "query_unused (\<lambda>i. if i = j then 0 else 1) studyKey userId d
         = Some (unused_rows studyKey userId d ! j)"
proof -
  let ?U = "unused_rows studyKey userId d"
  let ?r = "\<lambda>i. if i = j then 0 else (1::int)"
  have ne: "?U \<noteq> []" using j by auto
  from query_unused_choice[OF ne, of ?r]
  obtain k where k: "k < length ?U" "query_unused ?r studyKey userId d = Some (?U ! k)"
    and c: "\<forall>i < length ?U. weight (?U ! i) \<le> weight (?U ! k)
                 \<and> (weight (?U ! i) = weight (?U ! k) \<longrightarrow> ?r k \<le> ?r i)"
    by blast
  have "weight (?U ! j) \<le> weight (?U ! k)" using c j by blast
  moreover have "weight (?U ! k) \<le> weight (?U ! j)" using mx k(1) by blast
  ultimately have "weight (?U ! j) = weight (?U ! k)" by (rule antisym)
  then have "?r k \<le> ?r j" using c j by blast
  then have "k = j" by (simp split: if_splits)
  then show ?thesis using k(2) by simp
qed

lemma getRandomQuestion_unused:
  assumes "query_unused rnd studyKey userId d = Some row" "options row \<noteq> Malformed"
  shows "getRandomQuestion rnd now studyKey userId d
         = (touch_progress userId (q_id row) now d, Inr (Some row))"
  using assms by (simp add: getRandomQuestion_def Let_def split: options_column.splits)

lemma unused_rows_member:
  "q \<in> set (unused_rows studyKey userId d) \<Longrightarrow>
     q \<in> set (questions d) \<and> study_key q = studyKey
     \<and> \<not> (\<exists>up \<in> set (user_progress d). up_question_id up = q_id q \<and> up_user_id up = userId)"
  by (auto simp: unused_rows_def)

lemma lru_rows_member:
  "(p \<in> set (lru_rows studyKey userId d)) =
     (fst p \<in> set (questions d) \<and> snd p \<in> set (user_progress d)
      \<and> q_id (fst p) = up_question_id (snd p) \<and> study_key (fst p) = studyKey
      \<and> up_user_id (snd p) = userId)"
  by (cases p) (auto simp: lru_rows_def)

lemma touch_progress_questions: "questions (touch_progress u i now d) = questions d"
  by (simp add: touch_progress_def)

lemma touch_progress_rows:
  "user_progress (touch_progress u i now d) =
     (if \<exists>x \<in> set (user_progress d). up_user_id x = u \<and> up_question_id x = i
      then map (\<lambda>x. if up_user_id x = u \<and> up_question_id x = i then x\<lparr>last_used_at := now\<rparr> else x)
             (user_progress d)
      else user_progress d @ [\<lparr>up_user_id = u, up_question_id = i, last_used_at = now\<rparr>])"
  by (simp add: touch_progress_def update_where_def)

lemma touch_progress_written:
  assumes "up \<in> set (user_progress (touch_progress u i now d))"
    "up_user_id up = u" "up_question_id up = i"
  shows "last_used_at up = now"
proof (cases "\<exists>x \<in> set (user_progress d). up_user_id x = u \<and> up_question_id x = i")
  case True
  with assms(1) obtain x where x: "x \<in> set (user_progress d)"
    "up = (if up_user_id x = u \<and> up_question_id x = i then x\<lparr>last_used_at := now\<rparr> else x)"
    unfolding touch_progress_rows by auto
  show ?thesis
  proof (cases "up_user_id x = u \<and> up_question_id x = i")
    case True
    then show ?thesis using x(2) by simp
  next
    case False
    from x(2) have "up = x" by (simp only: False if_False)
    then show ?thesis using False assms(2,3) by blast
  qed
next
  case False
  with assms(1) have "up \<in> set (user_progress d)
      \<or> up = \<lparr>up_user_id = u, up_question_id = i, last_used_at = now\<rparr>"
    unfolding touch_progress_rows by auto
  then show ?thesis
  proof (elim disjE)
    assume "up \<in> set (user_progress d)"
    then show ?thesis using False assms(2,3) by blast
  next
    assume e: "up = \<lparr>up_user_id = u, up_question_id = i, last_used_at = now\<rparr>"
    have "last_used_at up
          = last_used_at \<lparr>up_user_id = u, up_question_id = i, last_used_at = now\<rparr>"
      by (rule arg_cong[OF e])
    then show ?thesis by simp
  qed
qed

lemma touch_progress_exists:
  "\<exists>up \<in> set (user_progress (touch_progress u i now d)).
     up_user_id up = u \<and> up_question_id up = i \<and> last_used_at up = now"
proof (cases "\<exists>up \<in> set (user_progress d). up_user_id up = u \<and> up_question_id up = i")
  case True
  then obtain up where up: "up \<in> set (user_progress d)" "up_user_id up = u" "up_question_id up = i"
    by blast
  let ?g = "\<lambda>x. if up_user_id x = u \<and> up_question_id x = i then x\<lparr>last_used_at := now\<rparr> else x"
  have "?g up \<in> ?g ` set (user_progress d)" using up(1) by (rule imageI)
  then have "?g up \<in> set (map ?g (user_progress d))" by (simp only: set_map)
  moreover have "?g up = up\<lparr>last_used_at := now\<rparr>" using up(2,3) by simp
  moreover have "user_progress (touch_progress u i now d) = map ?g (user_progress d)"
    using True by (simp only: touch_progress_rows if_True)
  ultimately have "up\<lparr>last_used_at := now\<rparr> \<in> set (user_progress (touch_progress u i now d))"
    by (simp only:)
  then show ?thesis
    using up by (intro bexI[of _ "up\<lparr>last_used_at := now\<rparr>"]) simp_all
next
  case False
  let ?new = "\<lparr>up_user_id = u, up_question_id = i, last_used_at = now\<rparr>"
  have "user_progress (touch_progress u i now d) = user_progress d @ [?new]"
    using False by (simp only: touch_progress_rows if_False)
  then have "?new \<in> set (user_progress (touch_progress u i now d))" by simp
  then show ?thesis by (intro bexI[of _ ?new]) simp_all
qed

lemma getRandomQuestion_cases:
  "getRandomQuestion rnd now studyKey userId d =
     (case (case query_unused rnd studyKey userId d of
              Some r \<Rightarrow> Some r
            | None \<Rightarrow> (case query_lru studyKey userId d of
                          Some r \<Rightarrow> Some r
                        | None \<Rightarrow> query_any studyKey d)) of
        None \<Rightarrow> (d, Inr None)
      | Some row \<Rightarrow>
          (touch_progress userId (q_id row) now d,
           if options row = Malformed then Inl SyntaxError else Inr (Some row)))"
  by (simp add: getRandomQuestion_def Let_def split: option.splits options_column.splits)

lemma getRandomQuestion_result:
  assumes "snd (getRandomQuestion rnd now studyKey userId d) = Inr (Some row)"
  shows "fst (getRandomQuestion rnd now studyKey userId d) = touch_progress userId (q_id row) now d"
proof (cases "case query_unused rnd studyKey userId d of
              Some r \<Rightarrow> Some r
            | None \<Rightarrow> (case query_lru studyKey userId d of
                          Some r \<Rightarrow> Some r
                        | None \<Rightarrow> query_any studyKey d)")
  case None
  then show ?thesis using assms by (simp add: getRandomQuestion_cases)
next
  case (Some r)
  then have "r = row" using assms
    by (cases "options r = Malformed") (simp_all add: getRandomQuestion_cases)
  then show ?thesis using Some by (simp add: getRandomQuestion_cases)
qed

lemma query_unused_none:
  "unused_rows studyKey userId d = [] \<Longrightarrow> query_unused rnd studyKey userId d = None"
  by (simp add: query_unused_def first_row_def)

lemma getRandomQuestion_lru:
  assumes "unused_rows studyKey userId d = []" "query_lru studyKey userId d = Some row"
    "options row \<noteq> Malformed"
  shows "getRandomQuestion rnd now studyKey userId d
         = (touch_progress userId (q_id row) now d, Inr (Some row))"
  by (simp add: getRandomQuestion_cases query_unused_none[OF assms(1)] assms(2,3))

lemma concat_map_progress:
  assumes "\<And>up. c (f up) = c up"
  shows "concat (map (\<lambda>up. if c up then [(q, up)] else []) (map f ups))
         = map (\<lambda>p. (fst p, f (snd p))) (concat (map (\<lambda>up. if c up then [(q, up)] else []) ups))"
  by (induction ups) (simp_all add: assms)

lemma lru_rows_update:
  assumes "\<And>up. up_user_id (f up) = up_user_id up" "\<And>up. up_question_id (f up) = up_question_id up"
  shows "lru_rows studyKey userId (d\<lparr>user_progress := map f (user_progress d)\<rparr>)
         = map (\<lambda>p. (fst p, f (snd p))) (lru_rows studyKey userId d)"
proof -
  have "\<And>qs. concat (map (\<lambda>q. concat (map (\<lambda>up.
            if q_id q = up_question_id up \<and> study_key q = studyKey \<and> up_user_id up = userId
            then [(q, up)] else []) (map f (user_progress d)))) qs)
        = map (\<lambda>p. (fst p, f (snd p))) (concat (map (\<lambda>q. concat (map (\<lambda>up.
            if q_id q = up_question_id up \<and> study_key q = studyKey \<and> up_user_id up = userId
            then [(q, up)] else []) (user_progress d))) qs))"
  proof -
    fix qs show "?thesis qs"
      by (induction qs) (simp_all add: concat_map_progress assms del: map_map)
  qed
  then show ?thesis by (simp add: lru_rows_def)
qed

lemma unused_rows_touch:
  assumes "unused_rows studyKey userId d = []"
  shows "unused_rows studyKey userId (touch_progress u i now d) = []"
proof -
  let ?g = "\<lambda>x. if up_user_id x = u \<and> up_question_id x = i then x\<lparr>last_used_at := now\<rparr> else x"
  have keep: "\<And>up. up \<in> set (user_progress d) \<Longrightarrow>
      \<exists>up' \<in> set (user_progress (touch_progress u i now d)).
        up_question_id up' = up_question_id up \<and> up_user_id up' = up_user_id up"
  proof -
    fix up assume a: "up \<in> set (user_progress d)"
    show "\<exists>up' \<in> set (user_progress (touch_progress u i now d)).
        up_question_id up' = up_question_id up \<and> up_user_id up' = up_user_id up"
    proof (cases "\<exists>x \<in> set (user_progress d). up_user_id x = u \<and> up_question_id x = i")
      case True
      have "?g up \<in> ?g ` set (user_progress d)" using a by (rule imageI)
      then have "?g up \<in> set (map ?g (user_progress d))" by (simp only: set_map)
      moreover have "user_progress (touch_progress u i now d) = map ?g (user_progress d)"
        using True by (simp only: touch_progress_rows if_True)
      ultimately have "?g up \<in> set (user_progress (touch_progress u i now d))" by (simp only:)
      moreover have "up_question_id (?g up) = up_question_id up \<and> up_user_id (?g up) = up_user_id up"
        by simp
      ultimately show ?thesis by blast
    next
      case False
      have "user_progress (touch_progress u i now d)
            = user_progress d @ [\<lparr>up_user_id = u, up_question_id = i, last_used_at = now\<rparr>]"
        using False by (simp only: touch_progress_rows if_False)
      then have "up \<in> set (user_progress (touch_progress u i now d))" using a by simp
      then show ?thesis by blast
    qed
  qed
  have h: "\<forall>q \<in> set (questions d). study_key q = studyKey \<longrightarrow>
          (\<exists>up \<in> set (user_progress d). q_id q = up_question_id up \<and> up_user_id up = userId)"
    using assms by (auto simp: unused_rows_def filter_empty_conv)
  have "\<forall>q \<in> set (questions d). study_key q = studyKey \<longrightarrow>
          (\<exists>up \<in> set (user_progress (touch_progress u i now d)).
             q_id q = up_question_id up \<and> up_user_id up = userId)"
  proof (intro ballI impI)
    fix q assume q: "q \<in> set (questions d)" "study_key q = studyKey"
    with h obtain up where up: "up \<in> set (user_progress d)" "q_id q = up_question_id up"
      "up_user_id up = userId" by blast
    from keep[OF up(1)] obtain up' where up': "up' \<in> set (user_progress (touch_progress u i now d))"
      "up_question_id up' = up_question_id up" "up_user_id up' = up_user_id up" by blast
    show "\<exists>up \<in> set (user_progress (touch_progress u i now d)).
             q_id q = up_question_id up \<and> up_user_id up = userId"
      using up(2,3) up' by (intro bexI[of _ up']) simp_all
  qed
  then show ?thesis
    unfolding unused_rows_def filter_empty_conv touch_progress_questions by blast
qed

lemma lru_first:
  assumes "lru_rows studyKey userId d \<noteq> []"
  shows "\<exists>p \<in> set (lru_rows studyKey userId d).
           query_lru studyKey userId d = Some (fst p)
           \<and> (\<forall>p' \<in> set (lru_rows studyKey userId d). last_used_at (snd p) \<le> last_used_at (snd p'))"
proof -
  from first_row_sort_key_ex[OF assms, of "\<lambda>p. last_used_at (snd p)"]
  obtain p where p: "first_row (sort_key (\<lambda>p. last_used_at (snd p)) (lru_rows studyKey userId d)) = Some p"
    by blast
  have "query_lru studyKey userId d = Some (fst p)" using p by (simp add: query_lru_def)
  then show ?thesis
    using first_row_sort_key[OF p] by blast
qed

lemma lru_nonempty:
  assumes "unused_rows studyKey userId d = []" "q \<in> set (questions d)" "study_key q = studyKey"
  shows "lru_rows studyKey userId d \<noteq> []"
proof -
  have "\<forall>q \<in> set (questions d). study_key q = studyKey \<longrightarrow>
          (\<exists>up \<in> set (user_progress d). q_id q = up_question_id up \<and> up_user_id up = userId)"
    using assms(1) by (auto simp: unused_rows_def filter_empty_conv)
  with assms(2,3) obtain up where "up \<in> set (user_progress d)" "q_id q = up_question_id up"
    "up_user_id up = userId" by blast
  then have "(q, up) \<in> set (lru_rows studyKey userId d)"
    using assms(2,3) by (simp add: lru_rows_member)
  then show ?thesis by auto
qed

lemma lru_unique:
  assumes "keys_ok d" "p \<in> set (lru_rows studyKey userId d)" "p1 \<in> set (lru_rows studyKey userId d)"
    "up_question_id (snd p) = q_id (fst p1)"
  shows "p = p1"
proof -
  have iq: "inj_on q_id (set (questions d))"
    and ip: "inj_on (\<lambda>p. (up_user_id p, up_question_id p)) (set (user_progress d))"
    using assms(1) by (simp_all add: keys_ok_def distinct_map)
  note m = assms(2)[unfolded lru_rows_member] and m1 = assms(3)[unfolded lru_rows_member]
  have "(up_user_id (snd p), up_question_id (snd p)) = (up_user_id (snd p1), up_question_id (snd p1))"
    using m m1 assms(4) by simp
  then have s: "snd p = snd p1" using ip m m1 by (meson inj_onD)
  have "q_id (fst p) = q_id (fst p1)" using m assms(4) by simp
  then have f: "fst p = fst p1" using iq m m1 by (meson inj_onD)
  show ?thesis using f s by (rule prod_eqI)
qed

lemma lru_rows_touch:
  assumes "p1 \<in> set (lru_rows studyKey userId d)"
  shows "lru_rows studyKey userId (touch_progress userId (q_id (fst p1)) now d)
         = map (\<lambda>p. (fst p, if up_user_id (snd p) = userId \<and> up_question_id (snd p) = q_id (fst p1)
                             then (snd p)\<lparr>last_used_at := now\<rparr> else snd p))
             (lru_rows studyKey userId d)"
proof -
  let ?g = "\<lambda>x. if up_user_id x = userId \<and> up_question_id x = q_id (fst p1)
                 then x\<lparr>last_used_at := now\<rparr> else x"
  note m1 = assms[unfolded lru_rows_member]
  have ex: "\<exists>x \<in> set (user_progress d). up_user_id x = userId \<and> up_question_id x = q_id (fst p1)"
    using m1 by (intro bexI[of _ "snd p1"]) simp_all
  have "touch_progress userId (q_id (fst p1)) now d = d\<lparr>user_progress := map ?g (user_progress d)\<rparr>"
    using ex by (simp add: touch_progress_def update_where_def)
  moreover have "lru_rows studyKey userId (d\<lparr>user_progress := map ?g (user_progress d)\<rparr>)
         = map (\<lambda>p. (fst p, ?g (snd p))) (lru_rows studyKey userId d)"
    by (rule lru_rows_update) simp_all
  ultimately show ?thesis by (simp only:)
qed

lemma in_set_mapI: "x \<in> set xs \<Longrightarrow> f x \<in> set (map f xs)"
  by simp

lemma stored_options:
  "\<forall>q \<in> set (questions d). options q \<noteq> Malformed \<Longrightarrow> q \<in> set (questions d) \<Longrightarrow>
   options q \<noteq> Malformed"
  by blast

lemma lru_second:
  assumes ks: "keys_ok d"
    and un: "unused_rows studyKey userId d = []"
    and ok: "\<forall>q \<in> set (questions d). options q \<noteq> Malformed"
    and dt: "distinct (map (\<lambda>p. last_used_at (snd p)) (lru_rows studyKey userId d))"
    and past: "\<forall>p \<in> set (lru_rows studyKey userId d). last_used_at (snd p) < now"
    and p1: "p1 \<in> set (lru_rows studyKey userId d)"
    and p0: "p0 \<in> set (lru_rows studyKey userId d)" "p0 \<noteq> p1"
  shows "\<exists>p2 \<in> set (lru_rows studyKey userId d). p2 \<noteq> p1
           \<and> snd (getRandomQuestion rnd' now' studyKey userId
                   (touch_progress userId (q_id (fst p1)) now d)) = Inr (Some (fst p2))
           \<and> (\<forall>p \<in> set (lru_rows studyKey userId d).
                 p \<noteq> p1 \<and> p \<noteq> p2 \<longrightarrow> last_used_at (snd p2) < last_used_at (snd p))"
proof -
  let ?J = "lru_rows studyKey userId d"
  let ?d1 = "touch_progress userId (q_id (fst p1)) now d"
  let ?G = "\<lambda>p. (fst p, if up_user_id (snd p) = userId \<and> up_question_id (snd p) = q_id (fst p1)
                             then (snd p)\<lparr>last_used_at := now\<rparr> else snd p)"
  have J1: "lru_rows studyKey userId ?d1 = map ?G ?J" by (rule lru_rows_touch[OF p1])
  have un1: "unused_rows studyKey userId ?d1 = []" by (rule unused_rows_touch[OF un])
  have Gid: "\<And>p. p \<in> set ?J \<Longrightarrow> p \<noteq> p1 \<Longrightarrow> ?G p = p"
  proof -
    fix p assume p: "p \<in> set ?J" "p \<noteq> p1"
    have "up_question_id (snd p) \<noteq> q_id (fst p1)"
      using lru_unique[OF ks p(1) p1] p(2) by blast
    then show "?G p = p" by simp
  qed
  have G1: "last_used_at (snd (?G p1)) = now"
    using p1[unfolded lru_rows_member] by simp
  have inj: "inj_on (\<lambda>p. last_used_at (snd p)) (set ?J)" using dt by (simp add: distinct_map)
  have "lru_rows studyKey userId ?d1 \<noteq> []" using J1 p1 by auto
  from lru_first[OF this] obtain p2' where p2': "p2' \<in> set (map ?G ?J)"
    "query_lru studyKey userId ?d1 = Some (fst p2')"
    "\<forall>p' \<in> set (map ?G ?J). last_used_at (snd p2') \<le> last_used_at (snd p')"
    unfolding J1 by blast
  from p2'(1) obtain p2 where p2: "p2 \<in> set ?J" "p2' = ?G p2" by auto
  have "?G p0 \<in> set (map ?G ?J)" using p0(1) by (rule in_set_mapI)
  then have "last_used_at (snd p2') \<le> last_used_at (snd (?G p0))" using p2'(3) by blast
  then have "last_used_at (snd p2') \<le> last_used_at (snd p0)" by (simp only: Gid[OF p0])
  then have lt: "last_used_at (snd p2') < now" using past p0(1) by fastforce
  have ne: "p2 \<noteq> p1"
  proof
    assume "p2 = p1"
    then have "p2' = ?G p1" using p2(2) by (simp only:)
    then have "last_used_at (snd p2') = last_used_at (snd (?G p1))" by (simp only:)
    then have "last_used_at (snd p2') = now" using G1 by (simp only:)
    then show False using lt by simp
  qed
  have e: "p2' = p2" using p2(2) Gid[OF p2(1) ne] by (simp only:)
  have "fst p2 \<in> set (questions d)" using p2(1) by (simp add: lru_rows_member)
  from stored_options[OF ok this] have os2: "options (fst p2) \<noteq> Malformed" .
  have q: "query_lru studyKey userId ?d1 = Some (fst p2)" using p2'(2) e by simp
  have r: "snd (getRandomQuestion rnd' now' studyKey userId ?d1) = Inr (Some (fst p2))"
    by (simp add: getRandomQuestion_lru[OF un1 q os2])
  have mn: "\<forall>p \<in> set ?J. p \<noteq> p1 \<and> p \<noteq> p2 \<longrightarrow> last_used_at (snd p2) < last_used_at (snd p)"
  proof (intro ballI impI)
    fix p assume p: "p \<in> set ?J" "p \<noteq> p1 \<and> p \<noteq> p2"
    then have "?G p = p" using Gid by blast
    moreover have "?G p \<in> set (map ?G ?J)" using p(1) by (rule in_set_mapI)
    ultimately have "p \<in> set (map ?G ?J)" by (simp only:)
    then have "last_used_at (snd p2') \<le> last_used_at (snd p)" using p2'(3) by blast
    then have le: "last_used_at (snd p2) \<le> last_used_at (snd p)" by (simp only: e)
    have "last_used_at (snd p2) \<noteq> last_used_at (snd p)"
    proof
      assume "last_used_at (snd p2) = last_used_at (snd p)"
      then have "p2 = p" using inj_onD[OF inj, of p2 p] p2(1) p(1) by simp
      then show False using p(2) by simp
    qed
    then show "last_used_at (snd p2) < last_used_at (snd p)" using le by simp
  qed
  show ?thesis using p2(1) ne r mn by blast
qed

lemma abc_unused: "unused_rows ''physics'' 7 abc_db = questions abc_db"
  by (simp add: unused_rows_def abc_db_def)

lemma seen_lru:
  "lru_rows ''physics'' 7 seen_db
   = [(questions seen_db ! 0, user_progress seen_db ! 0),
      (questions seen_db ! 1, user_progress seen_db ! 1),
      (questions seen_db ! 2, user_progress seen_db ! 2)]"
  by (simp add: lru_rows_def seen_db_def abc_db_def)

lemma seen_times:
  "last_used_at (user_progress seen_db ! 0) = 30"
  "last_used_at (user_progress seen_db ! 1) = 10"
  "last_used_at (user_progress seen_db ! 2) = 20"
  "last_used_at (user_progress seen_db ! Suc 0) = 10"
  by (simp_all add: seen_db_def)

text \<open>
  C3. Let some question under the study key have no exposure for the user, and let the
  stored options of these questions parse. Then \<open>getRandomQuestion\<close> returns one of
  them: a stored question of the key without exposure, whose rating is maximal among
  the unexposed ones; among the unexposed questions of that rating it is the one with the
  smallest draw of \<open>RANDOM()\<close>, so the tie is decided by the draws alone and not by id
  or position: every unexposed question of maximal rating is returned for suitable draws.
  With exactly one unexposed question, that one is returned, whatever its rating. (The
  draws are an input of the model; that the choice within the tied set is uniform is
  then a property of the distribution of \<open>RANDOM()\<close>.)
\<close>

theorem next_prefers_unused:
  assumes "unused_rows studyKey userId d \<noteq> []"
    and "\<forall>q \<in> set (unused_rows studyKey userId d). options q \<noteq> Malformed"
  shows
    "(\<exists>k < length (unused_rows studyKey userId d).
        snd (getRandomQuestion rnd now studyKey userId d)
          = Inr (Some (unused_rows studyKey userId d ! k))
        \<and> unused_rows studyKey userId d ! k \<in> set (questions d)
        \<and> study_key (unused_rows studyKey userId d ! k) = studyKey
        \<and> \<not> (\<exists>up \<in> set (user_progress d).
               up_question_id up = q_id (unused_rows studyKey userId d ! k) \<and> up_user_id up = userId)
        \<and> (\<forall>j < length (unused_rows studyKey userId d).
              weight (unused_rows studyKey userId d ! j) \<le> weight (unused_rows studyKey userId d ! k)
              \<and> (weight (unused_rows studyKey userId d ! j) = weight (unused_rows studyKey userId d ! k)
                   \<longrightarrow> rnd k \<le> rnd j)))
     \<and> (\<forall>j < length (unused_rows studyKey userId d).
           (\<forall>i < length (unused_rows studyKey userId d).
              weight (unused_rows studyKey userId d ! i) \<le> weight (unused_rows studyKey userId d ! j))
           \<longrightarrow> (\<exists>rnd'. snd (getRandomQuestion rnd' now studyKey userId d)
                              = Inr (Some (unused_rows studyKey userId d ! j))))
     \<and> (\<forall>q. unused_rows studyKey userId d = [q]
           \<longrightarrow> snd (getRandomQuestion rnd now studyKey userId d) = Inr (Some q))"
proof -
  let ?U = "unused_rows studyKey userId d"
  have parsed: "\<And>k. k < length ?U \<Longrightarrow> options (?U ! k) \<noteq> Malformed"
    using assms(2) by simp
  from query_unused_choice[OF assms(1), of rnd]
  obtain k where k: "k < length ?U" "query_unused rnd studyKey userId d = Some (?U ! k)"
    and c: "\<forall>j < length ?U. weight (?U ! j) \<le> weight (?U ! k)
                 \<and> (weight (?U ! j) = weight (?U ! k) \<longrightarrow> rnd k \<le> rnd j)"
    by blast
  note os = parsed[OF k(1)]
  have r: "snd (getRandomQuestion rnd now studyKey userId d) = Inr (Some (?U ! k))"
    by (simp add: getRandomQuestion_unused[OF k(2) os])
  have mem: "?U ! k \<in> set ?U" using k(1) by simp
  note m = unused_rows_member[OF mem]
  have first: "\<exists>k < length ?U.
        snd (getRandomQuestion rnd now studyKey userId d) = Inr (Some (?U ! k))
        \<and> ?U ! k \<in> set (questions d)
        \<and> study_key (?U ! k) = studyKey
        \<and> \<not> (\<exists>up \<in> set (user_progress d).
               up_question_id up = q_id (?U ! k) \<and> up_user_id up = userId)
        \<and> (\<forall>j < length ?U.
              weight (?U ! j) \<le> weight (?U ! k)
              \<and> (weight (?U ! j) = weight (?U ! k) \<longrightarrow> rnd k \<le> rnd j))"
    using k(1) r m c by blast
  have second: "\<forall>j < length ?U.
           (\<forall>i < length ?U. weight (?U ! i) \<le> weight (?U ! j))
           \<longrightarrow> (\<exists>rnd'. snd (getRandomQuestion rnd' now studyKey userId d)
                              = Inr (Some (?U ! j)))"
  proof (intro allI impI)
    fix j assume j: "j < length ?U" and mx: "\<forall>i < length ?U. weight (?U ! i) \<le> weight (?U ! j)"
    note os' = parsed[OF j]
    have "snd (getRandomQuestion (\<lambda>i. if i = j then 0 else 1) now studyKey userId d)
          = Inr (Some (?U ! j))"
      by (simp add: getRandomQuestion_unused[OF query_unused_any_tied[OF j mx] os'])
    then show "\<exists>rnd'. snd (getRandomQuestion rnd' now studyKey userId d)
                              = Inr (Some (?U ! j))"
      by blast
  qed
  have third: "\<forall>q. ?U = [q]
           \<longrightarrow> snd (getRandomQuestion rnd now studyKey userId d) = Inr (Some q)"
  proof (intro allI impI)
    fix q assume u: "?U = [q]"
    then have "k = 0" using k(1) by simp
    then have "?U ! k = q" using u by simp
    then show "snd (getRandomQuestion rnd now studyKey userId d) = Inr (Some q)"
      using r by simp
  qed
  show ?thesis using first second third by blast
qed

theorem next_prefers_unused_witness:
  "unused_rows ''physics'' 7 abc_db \<noteq> []
   \<and> list_all (\<lambda>q. options q \<noteq> Malformed) (unused_rows ''physics'' 7 abc_db)
   \<and> map weight (unused_rows ''physics'' 7 abc_db) = [Some (1 / 2), Some (4 / 5), Some (4 / 5)]
   \<and> snd (getRandomQuestion sample_rnd 100 ''physics'' 7 abc_db)
       = Inr (Some (questions abc_db ! 2))
   \<and> (\<exists>rnd'. snd (getRandomQuestion rnd' 100 ''physics'' 7 abc_db)
                    = Inr (Some (questions abc_db ! 1)))"
proof -
  have h1: "unused_rows ''physics'' 7 abc_db \<noteq> []" unfolding abc_unused by (simp add: abc_db_def)
  have h2: "\<forall>q \<in> set (unused_rows ''physics'' 7 abc_db). options q \<noteq> Malformed"
    unfolding abc_unused by (simp add: abc_db_def)
  have w: "map weight (unused_rows ''physics'' 7 abc_db) = [Some (1 / 2), Some (4 / 5), Some (4 / 5)]"
    unfolding abc_unused by (simp add: abc_db_def weight_def rating_def)
  note t = next_prefers_unused[OF h1 h2, of sample_rnd 100]
  from t obtain k where k: "k < length (unused_rows ''physics'' 7 abc_db)"
    and r: "snd (getRandomQuestion sample_rnd 100 ''physics'' 7 abc_db)
              = Inr (Some (unused_rows ''physics'' 7 abc_db ! k))"
    and c: "\<forall>j < length (unused_rows ''physics'' 7 abc_db).
              weight (unused_rows ''physics'' 7 abc_db ! j) \<le> weight (unused_rows ''physics'' 7 abc_db ! k)
              \<and> (weight (unused_rows ''physics'' 7 abc_db ! j) = weight (unused_rows ''physics'' 7 abc_db ! k)
                   \<longrightarrow> sample_rnd k \<le> sample_rnd j)"
    by blast
  have len: "length (unused_rows ''physics'' 7 abc_db) = 3" unfolding abc_unused by (simp add: abc_db_def)
  have wn: "\<And>j. j < 3 \<Longrightarrow> weight (unused_rows ''physics'' 7 abc_db ! j)
              = [Some (1 / 2), Some (4 / 5), Some (4 / 5)] ! j"
    using w len by (metis nth_map)
  have k2: "k = 2"
  proof -
    have "k = 0 \<or> k = 1 \<or> k = 2" using k len by auto
    moreover have "k \<noteq> 0"
    proof
      assume "k = 0"
      with c len wn[of 0] wn[of 1] show False by (auto dest!: spec[of _ 1])
    qed
    moreover have "k \<noteq> 1"
    proof
      assume "k = 1"
      with c len wn[of 1] wn[of 2] show False by (auto simp: sample_rnd_def dest!: spec[of _ 2])
    qed
    ultimately show ?thesis by blast
  qed
  have a: "snd (getRandomQuestion sample_rnd 100 ''physics'' 7 abc_db)
       = Inr (Some (questions abc_db ! 2))"
    using r k2 by (simp add: abc_unused)
  have b: "\<exists>rnd'. snd (getRandomQuestion rnd' 100 ''physics'' 7 abc_db)
                    = Inr (Some (questions abc_db ! 1))"
  proof -
    from t have "\<forall>j < length (unused_rows ''physics'' 7 abc_db).
           (\<forall>i < length (unused_rows ''physics'' 7 abc_db).
              weight (unused_rows ''physics'' 7 abc_db ! i) \<le> weight (unused_rows ''physics'' 7 abc_db ! j))
           \<longrightarrow> (\<exists>rnd'. snd (getRandomQuestion rnd' 100 ''physics'' 7 abc_db)
                              = Inr (Some (unused_rows ''physics'' 7 abc_db ! j)))"
      by blast
    then have s: "1 < length (unused_rows ''physics'' 7 abc_db) \<Longrightarrow>
           (\<forall>i < length (unused_rows ''physics'' 7 abc_db).
              weight (unused_rows ''physics'' 7 abc_db ! i) \<le> weight (unused_rows ''physics'' 7 abc_db ! 1))
           \<Longrightarrow> (\<exists>rnd'. snd (getRandomQuestion rnd' 100 ''physics'' 7 abc_db)
                              = Inr (Some (unused_rows ''physics'' 7 abc_db ! 1)))"
      by blast
    have mx: "\<forall>i < length (unused_rows ''physics'' 7 abc_db).
              weight (unused_rows ''physics'' 7 abc_db ! i) \<le> weight (unused_rows ''physics'' 7 abc_db ! 1)"
    proof (intro allI impI)
      fix i assume "i < length (unused_rows ''physics'' 7 abc_db)"
      then have "i = 0 \<or> i = 1 \<or> i = 2" using len by auto
      then show "weight (unused_rows ''physics'' 7 abc_db ! i) \<le> weight (unused_rows ''physics'' 7 abc_db ! 1)"
        using wn[of 0] wn[of 1] wn[of 2] by auto
    qed
    have "1 < length (unused_rows ''physics'' 7 abc_db)" using len by simp
    from s[OF this mx] show ?thesis by (simp only: abc_unused)
  qed
  show ?thesis using h1 h2 w a b by (simp add: list_all_iff)
qed

text \<open>
  C4. Whenever \<open>getRandomQuestion\<close> returns a question, the store it leaves holds the
  exposure of (user, question) with the current time, created or updated. Let the keys
  be as the schema enforces them, the stored options parse, the study key have a
  question and every question of the key an exposure for the user, at distinct times,
  all before the current time. Then the call returns the question with the smallest
  \<open>last_used_at\<close> and writes its exposure; and if the key has another question, a
  second call on the resulting store returns the question with the next-smallest
  \<open>last_used_at\<close>.
\<close>

theorem next_lru:
  assumes ks: "keys_ok d"
    and un: "unused_rows studyKey userId d = []"
    and ex: "\<exists>q \<in> set (questions d). study_key q = studyKey"
    and ok: "\<forall>q \<in> set (questions d). options q \<noteq> Malformed"
    and dt: "distinct (map (\<lambda>p. last_used_at (snd p)) (lru_rows studyKey userId d))"
    and past: "\<forall>p \<in> set (lru_rows studyKey userId d). last_used_at (snd p) < now"
  shows
    "(\<forall>d' row. snd (getRandomQuestion rnd now studyKey userId d') = Inr (Some row) \<longrightarrow>
        (\<exists>up \<in> set (user_progress (fst (getRandomQuestion rnd now studyKey userId d'))).
           up_user_id up = userId \<and> up_question_id up = q_id row \<and> last_used_at up = now)
        \<and> (\<forall>up \<in> set (user_progress (fst (getRandomQuestion rnd now studyKey userId d'))).
              up_user_id up = userId \<and> up_question_id up = q_id row \<longrightarrow> last_used_at up = now))
     \<and> (\<exists>p1 \<in> set (lru_rows studyKey userId d).
          getRandomQuestion rnd now studyKey userId d
            = (touch_progress userId (q_id (fst p1)) now d, Inr (Some (fst p1)))
          \<and> (\<forall>p \<in> set (lru_rows studyKey userId d).
                p \<noteq> p1 \<longrightarrow> last_used_at (snd p1) < last_used_at (snd p))
          \<and> ((\<exists>p \<in> set (lru_rows studyKey userId d). p \<noteq> p1) \<longrightarrow>
               (\<exists>p2 \<in> set (lru_rows studyKey userId d). p2 \<noteq> p1
                  \<and> snd (getRandomQuestion rnd' now' studyKey userId
                          (fst (getRandomQuestion rnd now studyKey userId d)))
                      = Inr (Some (fst p2))
                  \<and> (\<forall>p \<in> set (lru_rows studyKey userId d).
                        p \<noteq> p1 \<and> p \<noteq> p2 \<longrightarrow> last_used_at (snd p2) < last_used_at (snd p)))))"
proof (rule conjI)
  show "\<forall>d' row. snd (getRandomQuestion rnd now studyKey userId d') = Inr (Some row) \<longrightarrow>
        (\<exists>up \<in> set (user_progress (fst (getRandomQuestion rnd now studyKey userId d'))).
           up_user_id up = userId \<and> up_question_id up = q_id row \<and> last_used_at up = now)
        \<and> (\<forall>up \<in> set (user_progress (fst (getRandomQuestion rnd now studyKey userId d'))).
              up_user_id up = userId \<and> up_question_id up = q_id row \<longrightarrow> last_used_at up = now)"
  proof (intro allI impI)
    fix d' row
    assume "snd (getRandomQuestion rnd now studyKey userId d') = Inr (Some row)"
    then have e: "fst (getRandomQuestion rnd now studyKey userId d')
                  = touch_progress userId (q_id row) now d'"
      by (rule getRandomQuestion_result)
    show "(\<exists>up \<in> set (user_progress (fst (getRandomQuestion rnd now studyKey userId d'))).
           up_user_id up = userId \<and> up_question_id up = q_id row \<and> last_used_at up = now)
        \<and> (\<forall>up \<in> set (user_progress (fst (getRandomQuestion rnd now studyKey userId d'))).
              up_user_id up = userId \<and> up_question_id up = q_id row \<longrightarrow> last_used_at up = now)"
      unfolding e using touch_progress_exists touch_progress_written by blast
  qed
next
  let ?J = "lru_rows studyKey userId d"
  from ex obtain q where "q \<in> set (questions d)" "study_key q = studyKey" by blast
  then have ne: "?J \<noteq> []" by (rule lru_nonempty[OF un])
  from lru_first[OF ne] obtain p1 where p1: "p1 \<in> set ?J"
    "query_lru studyKey userId d = Some (fst p1)"
    "\<forall>p' \<in> set ?J. last_used_at (snd p1) \<le> last_used_at (snd p')"
    by blast
  have "fst p1 \<in> set (questions d)" using p1(1) by (simp add: lru_rows_member)
  from stored_options[OF ok this] have os1: "options (fst p1) \<noteq> Malformed" .
  have r: "getRandomQuestion rnd now studyKey userId d
            = (touch_progress userId (q_id (fst p1)) now d, Inr (Some (fst p1)))"
    by (rule getRandomQuestion_lru[OF un p1(2) os1])
  have inj: "inj_on (\<lambda>p. last_used_at (snd p)) (set ?J)" using dt by (simp add: distinct_map)
  have strict: "\<forall>p \<in> set ?J. p \<noteq> p1 \<longrightarrow> last_used_at (snd p1) < last_used_at (snd p)"
  proof (intro ballI impI)
    fix p assume p: "p \<in> set ?J" "p \<noteq> p1"
    have le: "last_used_at (snd p1) \<le> last_used_at (snd p)" using p1(3) p(1) by blast
    have "last_used_at (snd p1) \<noteq> last_used_at (snd p)"
    proof
      assume "last_used_at (snd p1) = last_used_at (snd p)"
      then have "p1 = p" using inj_onD[OF inj, of p1 p] p1(1) p(1) by simp
      then show False using p(2) by simp
    qed
    then show "last_used_at (snd p1) < last_used_at (snd p)" using le by simp
  qed
  have second: "(\<exists>p \<in> set ?J. p \<noteq> p1) \<longrightarrow>
               (\<exists>p2 \<in> set ?J. p2 \<noteq> p1
                  \<and> snd (getRandomQuestion rnd' now' studyKey userId
                          (fst (getRandomQuestion rnd now studyKey userId d)))
                      = Inr (Some (fst p2))
                  \<and> (\<forall>p \<in> set ?J.
                        p \<noteq> p1 \<and> p \<noteq> p2 \<longrightarrow> last_used_at (snd p2) < last_used_at (snd p)))"
  proof
    assume "\<exists>p \<in> set ?J. p \<noteq> p1"
    then obtain p0 where p0: "p0 \<in> set ?J" "p0 \<noteq> p1" by blast
    have f: "fst (getRandomQuestion rnd now studyKey userId d)
             = touch_progress userId (q_id (fst p1)) now d"
      by (simp add: r)
    show "\<exists>p2 \<in> set ?J. p2 \<noteq> p1
                  \<and> snd (getRandomQuestion rnd' now' studyKey userId
                          (fst (getRandomQuestion rnd now studyKey userId d)))
                      = Inr (Some (fst p2))
                  \<and> (\<forall>p \<in> set ?J.
                        p \<noteq> p1 \<and> p \<noteq> p2 \<longrightarrow> last_used_at (snd p2) < last_used_at (snd p))"
      unfolding f by (rule lru_second[OF ks un ok dt past p1(1) p0])
  qed
  show "\<exists>p1 \<in> set ?J.
          getRandomQuestion rnd now studyKey userId d
            = (touch_progress userId (q_id (fst p1)) now d, Inr (Some (fst p1)))
          \<and> (\<forall>p \<in> set ?J. p \<noteq> p1 \<longrightarrow> last_used_at (snd p1) < last_used_at (snd p))
          \<and> ((\<exists>p \<in> set ?J. p \<noteq> p1) \<longrightarrow>
               (\<exists>p2 \<in> set ?J. p2 \<noteq> p1
                  \<and> snd (getRandomQuestion rnd' now' studyKey userId
                          (fst (getRandomQuestion rnd now studyKey userId d)))
                      = Inr (Some (fst p2))
                  \<and> (\<forall>p \<in> set ?J.
                        p \<noteq> p1 \<and> p \<noteq> p2 \<longrightarrow> last_used_at (snd p2) < last_used_at (snd p))))"
    using p1(1) r strict second by blast
qed

theorem next_lru_witness:
  "keys_ok seen_db
   \<and> unused_rows ''physics'' 7 seen_db = []
   \<and> map (\<lambda>p. last_used_at (snd p)) (lru_rows ''physics'' 7 seen_db) = [30, 10, 20]
   \<and> getRandomQuestion sample_rnd 100 ''physics'' 7 seen_db
         = (touch_progress 7 2 100 seen_db, Inr (Some (questions seen_db ! 1)))
   \<and> snd (getRandomQuestion sample_rnd 101 ''physics'' 7
            (fst (getRandomQuestion sample_rnd 100 ''physics'' 7 seen_db)))
         = Inr (Some (questions seen_db ! 2))"
proof -
  let ?J = "lru_rows ''physics'' 7 seen_db"
  let ?p0 = "(questions seen_db ! 0, user_progress seen_db ! 0)"
  let ?p1 = "(questions seen_db ! 1, user_progress seen_db ! 1)"
  let ?p2 = "(questions seen_db ! 2, user_progress seen_db ! 2)"
  have h1: "keys_ok seen_db" by (simp add: keys_ok_def seen_db_def abc_db_def)
  have h2: "unused_rows ''physics'' 7 seen_db = []"
    by (simp add: unused_rows_def seen_db_def abc_db_def)
  have h3: "\<exists>q \<in> set (questions seen_db). study_key q = ''physics''"
    by (simp add: seen_db_def abc_db_def)
  have h4: "\<forall>q \<in> set (questions seen_db). options q \<noteq> Malformed"
    by (simp add: seen_db_def abc_db_def)
  have tm: "map (\<lambda>p. last_used_at (snd p)) ?J = [30, 10, 20]"
    by (simp add: seen_lru seen_times)
  have h5: "distinct (map (\<lambda>p. last_used_at (snd p)) ?J)" by (simp only: tm) simp
  have h6: "\<forall>p \<in> set ?J. last_used_at (snd p) < 100" by (simp add: seen_lru seen_times)
  have ne: "?p0 \<noteq> ?p1" "?p1 \<noteq> ?p2" "?p0 \<noteq> ?p2"
    using seen_times by (auto simp: prod_eq_iff)
  have id1: "q_id (questions seen_db ! 1) = 2" by (simp add: seen_db_def abc_db_def)
  note t = next_lru[OF h1 h2 h3 h4 h5 h6, of sample_rnd sample_rnd 101]
  from t obtain p1 where p1: "p1 \<in> set ?J"
    and r: "getRandomQuestion sample_rnd 100 ''physics'' 7 seen_db
            = (touch_progress 7 (q_id (fst p1)) 100 seen_db, Inr (Some (fst p1)))"
    and st: "\<forall>p \<in> set ?J. p \<noteq> p1 \<longrightarrow> last_used_at (snd p1) < last_used_at (snd p)"
    and sec: "(\<exists>p \<in> set ?J. p \<noteq> p1) \<longrightarrow>
               (\<exists>p2 \<in> set ?J. p2 \<noteq> p1
                  \<and> snd (getRandomQuestion sample_rnd 101 ''physics'' 7
                          (fst (getRandomQuestion sample_rnd 100 ''physics'' 7 seen_db)))
                      = Inr (Some (fst p2))
                  \<and> (\<forall>p \<in> set ?J.
                        p \<noteq> p1 \<and> p \<noteq> p2 \<longrightarrow> last_used_at (snd p2) < last_used_at (snd p)))"
    by blast
  have mem: "\<And>p. p \<in> set ?J \<longleftrightarrow> p = ?p0 \<or> p = ?p1 \<or> p = ?p2" by (auto simp: seen_lru)
  have e1: "p1 = ?p1"
  proof -
    have c: "p1 = ?p0 \<or> p1 = ?p1 \<or> p1 = ?p2" using p1 mem by blast
    have "p1 \<noteq> ?p0"
    proof
      assume a: "p1 = ?p0"
      have "?p1 \<in> set ?J" using mem by blast
      with st a ne(1) have "last_used_at (snd ?p0) < last_used_at (snd ?p1)" by metis
      then show False by (simp add: seen_times)
    qed
    moreover have "p1 \<noteq> ?p2"
    proof
      assume a: "p1 = ?p2"
      have "?p1 \<in> set ?J" using mem by blast
      with st a ne(2) have "last_used_at (snd ?p2) < last_used_at (snd ?p1)" by metis
      then show False by (simp add: seen_times)
    qed
    ultimately show ?thesis using c by blast
  qed
  have a: "getRandomQuestion sample_rnd 100 ''physics'' 7 seen_db
              = (touch_progress 7 2 100 seen_db, Inr (Some (questions seen_db ! 1)))"
    using r unfolding e1 fst_conv id1 by blast
  have "\<exists>p \<in> set ?J. p \<noteq> p1" using mem e1 ne(1) by blast
  with sec obtain p2 where p2: "p2 \<in> set ?J" "p2 \<noteq> p1"
    and r2: "snd (getRandomQuestion sample_rnd 101 ''physics'' 7
                          (fst (getRandomQuestion sample_rnd 100 ''physics'' 7 seen_db)))
                      = Inr (Some (fst p2))"
    and st2: "\<forall>p \<in> set ?J. p \<noteq> p1 \<and> p \<noteq> p2 \<longrightarrow> last_used_at (snd p2) < last_used_at (snd p)"
    by blast
  have e2: "p2 = ?p2"
  proof -
    have c: "p2 = ?p0 \<or> p2 = ?p2" using p2 mem e1 by blast
    have "p2 \<noteq> ?p0"
    proof
      assume a: "p2 = ?p0"
      have "?p2 \<in> set ?J" using mem by blast
      moreover have "?p2 \<noteq> p1 \<and> ?p2 \<noteq> p2" using e1 a ne by metis
      ultimately have "last_used_at (snd p2) < last_used_at (snd ?p2)" using st2 by blast
      then show False by (simp add: a seen_times)
    qed
    then show ?thesis using c by blast
  qed
  have b: "snd (getRandomQuestion sample_rnd 101 ''physics'' 7
                   (fst (getRandomQuestion sample_rnd 100 ''physics'' 7 seen_db)))
              = Inr (Some (questions seen_db ! 2))"
    using r2 unfolding e2 fst_conv by blast
  show ?thesis using h1 h2 tm a b by blast
qed

section \<open>Generation pipeline: the validation stage\<close>

lemma includes_index:
  "(JNum (of_nat i) \<in> set (map (\<lambda>k. JNum (of_int k)) ks)) = (int i \<in> set ks)"
proof -
  have "\<And>k. ((of_nat i :: rat) = of_int k) = (int i = k)"
    by (metis of_int_eq_iff of_int_of_nat_eq)
  then show ?thesis by (auto simp: image_iff)
qed

lemma filterBadQuestions_indices:
  assumes "qs \<noteq> []" "trim c \<noteq> []"
    "parse (cleanContent (trim c)) = Some (JArr (map (\<lambda>k. JNum (of_int k)) ks))"
  shows "filterBadQuestions parse qs (Content (Some c)) = nths qs {i. int i \<in> set ks}"
proof -
  have "(\<lambda>(q :: GeneratedQuestion, i). JNum (of_nat i) \<in> set (map (\<lambda>k. JNum (of_int k)) ks))
        = (\<lambda>p. snd p \<in> {i. int i \<in> set ks})"
    by (auto simp: includes_index fun_eq_iff simp del: set_map)
  then show ?thesis
    using assms by (simp add: filterBadQuestions_def nths_def del: set_map)
qed

lemma filterBadQuestions_fail_open:
  assumes "reply = ApiError \<or> reply = Content None
      \<or> (\<exists>c. reply = Content (Some c) \<and> (trim c = [] \<or> parse (cleanContent (trim c)) = None
             \<or> (\<exists>j. parse (cleanContent (trim c)) = Some j \<and> (\<forall>elems. j \<noteq> JArr elems))))"
  shows "filterBadQuestions parse qs reply = qs"
  using assms
  by (cases qs) (auto simp: filterBadQuestions_def split: json.splits)

text \<open>
  C5. Let the first stage yield a non-empty draft list. If the second completion call
  fails, or its reply is undefined, empty after trimming, not parseable, or parses to
  something that is not an array, \<open>generateQuestions\<close> returns exactly the drafts, in order.
  If the reply parses to an array of integers \<open>ks\<close>, it returns exactly the drafts whose
  positions occur in \<open>ks\<close>, in draft order; integers that are no position of a draft select
  nothing.
\<close>

theorem generate_fail_open:
  assumes "drafts \<noteq> []"
    and "reply1 = Content (Some c1)" and "trim c1 \<noteq> []"
    and "parseQuestions (cleanContent (trim c1)) = Some drafts"
  shows
    "(reply2 = ApiError \<or> reply2 = Content None
      \<or> (\<exists>c. reply2 = Content (Some c) \<and> (trim c = [] \<or> parse (cleanContent (trim c)) = None
             \<or> (\<exists>j. parse (cleanContent (trim c)) = Some j \<and> (\<forall>elems. j \<noteq> JArr elems))))
      \<longrightarrow> generateQuestions True parseQuestions parse reply1 reply2 = Inr drafts)
     \<and> (\<forall>c ks. reply2 = Content (Some c) \<and> trim c \<noteq> []
            \<and> parse (cleanContent (trim c)) = Some (JArr (map (\<lambda>k. JNum (of_int k)) ks))
          \<longrightarrow> generateQuestions True parseQuestions parse reply1 reply2
                = Inr (nths drafts {i. int i \<in> set ks}))"
proof -
  have g: "generateQuestions True parseQuestions parse reply1 reply2
           = Inr (filterBadQuestions parse drafts reply2)"
    using assms by (simp add: generateQuestions_def)
  show ?thesis
    unfolding g using assms(1)
    by (auto simp: filterBadQuestions_fail_open filterBadQuestions_indices)
qed

theorem generate_fail_open_witness:
  "sample_drafts \<noteq> []
   \<and> generateQuestions True sample_parseQuestions sample_parse
         (Content (Some ''```json [q0, q1, q2] ```'')) (Content (Some '' [0, 2, 7] ''))
       = Inr [sample_drafts ! 0, sample_drafts ! 2]
   \<and> generateQuestions True sample_parseQuestions sample_parse
         (Content (Some ''```json [q0, q1, q2] ```''))
         (Content (Some ([CHR 0xC2, CHR 0xA0] @ ''[0, 2, 7]'' @ [CHR 0xC2, CHR 0xA0])))
       = Inr [sample_drafts ! 0, sample_drafts ! 2]
   \<and> generateQuestions True sample_parseQuestions sample_parse
         (Content (Some ''```json [q0, q1, q2] ```'')) (Content (Some ''All of them are fine.''))
       = Inr sample_drafts
   \<and> generateQuestions True sample_parseQuestions sample_parse
         (Content (Some ''```json [q0, q1, q2] ```'')) (Content (Some ''{\"ok\": true}''))
       = Inr sample_drafts
   \<and> generateQuestions True sample_parseQuestions sample_parse
         (Content (Some ''```json [q0, q1, q2] ```'')) ApiError
       = Inr sample_drafts"
proof -
  have h0: "sample_drafts \<noteq> []" by (simp add: sample_drafts_def)
  have h1: "trim ''```json [q0, q1, q2] ```'' \<noteq> []" by code_simp
  have cc: "cleanContent (trim ''```json [q0, q1, q2] ```'') = ''[q0, q1, q2]''" by code_simp
  have h2: "sample_parseQuestions (cleanContent (trim ''```json [q0, q1, q2] ```''))
            = Some sample_drafts"
    by (simp only: cc) (simp add: sample_parseQuestions_def)
  note t = generate_fail_open[where parseQuestions = sample_parseQuestions
      and parse = sample_parse and ?c1.0 = "''```json [q0, q1, q2] ```''", OF h0 refl h1 h2]
  have n: "nths sample_drafts {i. int i \<in> set [0, 2, 7]}
           = [sample_drafts ! 0, sample_drafts ! 2]"
    by (simp add: nths_def sample_drafts_def upt_rec)
  have a: "generateQuestions True sample_parseQuestions sample_parse
         (Content (Some ''```json [q0, q1, q2] ```'')) (Content (Some '' [0, 2, 7] ''))
       = Inr [sample_drafts ! 0, sample_drafts ! 2]"
  proof -
    have p1: "trim '' [0, 2, 7] '' \<noteq> []" by code_simp
    have p2: "cleanContent (trim '' [0, 2, 7] '') = ''[0, 2, 7]''" by code_simp
    have p3: "sample_parse (cleanContent (trim '' [0, 2, 7] ''))
            = Some (JArr (map (\<lambda>k. JNum (of_int k)) [0, 2, 7]))"
      by (simp only: p2) (simp add: sample_parse_def)
    from t[of "Content (Some '' [0, 2, 7] '')"] p1 p3
    have "generateQuestions True sample_parseQuestions sample_parse
         (Content (Some ''```json [q0, q1, q2] ```'')) (Content (Some '' [0, 2, 7] ''))
       = Inr (nths sample_drafts {i. int i \<in> set [0, 2, 7]})"
      by blast
    then show ?thesis by (simp only: n)
  qed
  have a': "generateQuestions True sample_parseQuestions sample_parse
         (Content (Some ''```json [q0, q1, q2] ```''))
         (Content (Some ([CHR 0xC2, CHR 0xA0] @ ''[0, 2, 7]'' @ [CHR 0xC2, CHR 0xA0])))
       = Inr [sample_drafts ! 0, sample_drafts ! 2]"
  proof -
    let ?c = "[CHR 0xC2, CHR 0xA0] @ ''[0, 2, 7]'' @ [CHR 0xC2, CHR 0xA0]"
    have p1: "trim ?c \<noteq> []" by code_simp
    have p2: "cleanContent (trim ?c) = ''[0, 2, 7]''" by code_simp
    have p3: "sample_parse (cleanContent (trim ?c))
            = Some (JArr (map (\<lambda>k. JNum (of_int k)) [0, 2, 7]))"
      by (simp only: p2) (simp add: sample_parse_def)
    from t[of "Content (Some ?c)"] p1 p3
    have "generateQuestions True sample_parseQuestions sample_parse
         (Content (Some ''```json [q0, q1, q2] ```'')) (Content (Some ?c))
       = Inr (nths sample_drafts {i. int i \<in> set [0, 2, 7]})"
      by blast
    then show ?thesis by (simp only: n)
  qed
  have b: "generateQuestions True sample_parseQuestions sample_parse
         (Content (Some ''```json [q0, q1, q2] ```'')) (Content (Some ''All of them are fine.''))
       = Inr sample_drafts"
  proof -
    have p2: "cleanContent (trim ''All of them are fine.'') = ''All of them are fine.''"
      by code_simp
    have "sample_parse (cleanContent (trim ''All of them are fine.'')) = None"
      by (simp only: p2) (simp add: sample_parse_def)
    with t[of "Content (Some ''All of them are fine.'')"] show ?thesis by blast
  qed
  have c: "generateQuestions True sample_parseQuestions sample_parse
         (Content (Some ''```json [q0, q1, q2] ```'')) (Content (Some ''{\"ok\": true}''))
       = Inr sample_drafts"
  proof -
    have p2: "cleanContent (trim ''{\"ok\": true}'') = ''{\"ok\": true}''" by code_simp
    have "sample_parse (cleanContent (trim ''{\"ok\": true}'')) = Some (JObj [(''ok'', JBool True)])
          \<and> (\<forall>elems. JObj [(''ok'', JBool True)] \<noteq> JArr elems)"
      by (simp only: p2) (simp add: sample_parse_def)
    with t[of "Content (Some ''{\"ok\": true}'')"] show ?thesis by blast
  qed
  have d: "generateQuestions True sample_parseQuestions sample_parse
         (Content (Some ''```json [q0, q1, q2] ```'')) ApiError
       = Inr sample_drafts"
    using t[of ApiError] by blast
  show ?thesis using h0 a a' b c d by simp
qed

section \<open>Debias routine\<close>

lemma random_index_le:
  assumes "0 \<le> u" "u < 1"
  shows "random_index u i \<le> i"
proof -
  have p: "(0::rat) < of_nat i + 1" by (simp add: add_nonneg_pos)
  have "u * (of_nat i + 1) < 1 * (of_nat i + 1)"
    using assms(2) p by (rule mult_strict_right_mono)
  then have "u * (of_nat i + 1) < of_int (int i + 1)" by simp
  then have "\<lfloor>u * (of_nat i + 1)\<rfloor> < int i + 1" by (simp only: floor_less_iff)
  then show ?thesis by (simp add: random_index_def)
qed

lemma shuffle_from_mset:
  assumes "\<forall>i. 0 \<le> u i \<and> u i < 1"
  shows "k < length opts \<Longrightarrow> mset (shuffle_from u k opts) = mset opts"
proof (induction k arbitrary: opts)
  case 0
  then show ?case by simp
next
  case (Suc k)
  have j: "random_index (u (Suc k)) (Suc k) \<le> Suc k"
    using assms by (simp add: random_index_le)
  let ?j = "random_index (u (Suc k)) (Suc k)"
  let ?opts = "opts[Suc k := opts ! ?j, ?j := opts ! Suc k]"
  have m: "mset ?opts = mset opts"
    using Suc.prems j by (intro mset_swap) simp_all
  have "k < length ?opts" using Suc.prems by simp
  from Suc.IH[OF this] show ?case by (simp add: Let_def m)
qed

lemma fisherYates_mset:
  "\<forall>i. 0 \<le> u i \<and> u i < 1 \<Longrightarrow> mset (fisherYates u opts) = mset opts"
  by (cases "opts = []") (simp_all add: fisherYates_def shuffle_from_mset)

lemma index_from_range:
  "index_from xs x k = - 1 \<or> (k \<le> index_from xs x k \<and> index_from xs x k < k + int (length xs)
      \<and> xs ! nat (index_from xs x k - k) = x)"
  if "0 \<le> k"
  using that
proof (induction xs arbitrary: k)
  case Nil
  then show ?case by simp
next
  case (Cons y ys)
  show ?case
  proof (cases "y = x")
    case True
    then show ?thesis by simp
  next
    case False
    have "0 \<le> k + 1" using Cons.prems by simp
    from Cons.IH[OF this] False Cons.prems show ?thesis
      by (auto simp: nat_diff_distrib' nat_add_distrib)
  qed
qed

lemma index_from_found: "x \<in> set xs \<Longrightarrow> 0 \<le> k \<Longrightarrow> index_from xs x k \<noteq> - 1"
proof (induction xs arbitrary: k)
  case Nil
  then show ?case by simp
next
  case (Cons y ys)
  then show ?case using index_from_range[of "k + 1" ys x] by (cases "y = x") auto
qed

lemma indexOf_Some:
  assumes "indexOf xs v \<noteq> - 1"
  shows "\<exists>x. v = Some x \<and> js_nth xs (indexOf xs v) = Some x"
proof (cases v)
  case None
  then show ?thesis using assms by (simp add: indexOf_def)
next
  case (Some x)
  from index_from_range[of 0 xs x] assms Some
  show ?thesis by (auto simp: indexOf_def js_nth_def)
qed

lemma shuffle_question_Update:
  assumes "\<forall>i. 0 \<le> u i \<and> u i < 1" "shuffle_question u q = Update s n"
  shows "\<exists>os. options q = JsonArray os \<and> mset s = mset os
           \<and> js_nth s n = js_nth os (correct_index q) \<and> js_nth os (correct_index q) \<noteq> None"
proof (cases "options q")
  case Malformed
  then show ?thesis using assms(2) by (simp add: shuffle_question_def)
next
  case JsonOther
  then show ?thesis using assms(2) by (simp add: shuffle_question_def)
next
  case (JsonString t)
  then show ?thesis using assms(2) by (simp add: shuffle_question_def split: if_splits)
next
  case (JsonArray os)
  from assms(2) JsonArray have
    s: "s = fisherYates u os" and n: "n = indexOf s (js_nth os (correct_index q))" and ne: "n \<noteq> - 1"
    by (auto simp: shuffle_question_def Let_def split: if_splits)
  from indexOf_Some[of s "js_nth os (correct_index q)"] n ne
  obtain x where "js_nth os (correct_index q) = Some x" "js_nth s n = Some x" by auto
  then show ?thesis using JsonArray s fisherYates_mset[OF assms(1)] by simp
qed

text \<open>
  The update of a question whose options are a string of one code unit writes back what
  is stored.
\<close>

lemma shuffle_question_Rewrite:
  assumes "shuffle_question u q = Rewrite s"
  shows "q\<lparr>options := JsonString s, correct_index := 0\<rparr> = q"
proof -
  have "options q = JsonString s \<and> correct_index q = 0"
    using assms
    by (cases "options q") (simp_all add: shuffle_question_def Let_def split: if_splits)
  then have "q\<lparr>options := JsonString s, correct_index := 0\<rparr>
             = q\<lparr>options := options q, correct_index := correct_index q\<rparr>"
    by (simp only:)
  then show ?thesis by simp
qed

lemma reshuffled_refl: "reshuffled q q"
  by (simp add: reshuffled_def split: options_column.splits)

lemma reshuffled_row_result:
  assumes "\<forall>i. 0 \<le> random env k i \<and> random env k i < 1"
  shows "reshuffled q (row_result env k q)"
proof (cases "shuffle_question (random env k) q")
  case (Skip e)
  then show ?thesis by (simp add: row_result_def reshuffled_refl)
next
  case Raise
  then show ?thesis by (simp add: row_result_def reshuffled_refl)
next
  case (Rewrite s)
  then show ?thesis
    by (simp add: row_result_def shuffle_question_Rewrite[OF Rewrite] reshuffled_refl)
next
  case (Update s n)
  from shuffle_question_Update[OF assms Update] show ?thesis
    by (auto simp: row_result_def Update reshuffled_def reshuffled_refl)
qed

lemma update_where_mid:
  "\<forall>x \<in> set pre \<union> set post. \<not> P x \<Longrightarrow> P e \<Longrightarrow>
   update_where P f (pre @ e # post) = pre @ f e # post"
  by (simp add: update_where_def map_idI)

lemma update_question_mid:
  assumes "distinct (map q_id (pre @ q # post))"
  shows "update_where (\<lambda>r. q_id r = q_id q) f (pre @ q # post) = pre @ f q # post"
proof -
  have "q_id q \<notin> q_id ` set pre" "q_id q \<notin> q_id ` set post" using assms by auto
  then have "\<forall>x \<in> set pre \<union> set post. \<not> q_id x = q_id q" by (metis UnE imageI)
  then show ?thesis by (simp add: update_where_mid)
qed

lemma updateQuestionOptions_mid:
  assumes "distinct (map q_id (pre @ q # post))" "questions d = pre @ q # post"
  shows "updateQuestionOptions (q_id q) s n d
         = d\<lparr>questions := pre @ q\<lparr>options := JsonArray s, correct_index := n\<rparr> # post\<rparr>"
  using assms(2) by (simp add: updateQuestionOptions_def update_question_mid[OF assms(1)])

text \<open>
  The run of the loop: the iterations before the first one that \<open>stops\<close> each leave the
  \<open>row_result\<close> of their row in the store and their \<open>row_log\<close> in the log; the row of
  the iteration that stops and all rows after it stay as they are, and the outer catch
  writes one line.
\<close>

lemma shuffle_loop_run:
  "distinct (map q_id (pre @ rest)) \<Longrightarrow> questions d = pre @ rest \<Longrightarrow>
   shuffle_loop env k rest (d, lg) =
     (d\<lparr>questions := pre
          @ map (\<lambda>p. row_result env (fst p) (snd p))
              (takeWhile (\<lambda>p. \<not> stops env (fst p) (snd p)) (enumerate k rest))
          @ map snd (dropWhile (\<lambda>p. \<not> stops env (fst p) (snd p)) (enumerate k rest))\<rparr>,
      lg @ concat (map (\<lambda>p. row_log env (fst p) (snd p))
                    (takeWhile (\<lambda>p. \<not> stops env (fst p) (snd p)) (enumerate k rest)))
         @ (if dropWhile (\<lambda>p. \<not> stops env (fst p) (snd p)) (enumerate k rest) = []
            then [] else [ShuffleError]))"
proof (induction rest arbitrary: pre k d lg)
  case Nil
  have "d\<lparr>questions := questions d\<rparr> = d" by simp
  then show ?case using Nil.prems(2) by simp
next
  case (Cons q rest)
  let ?T = "takeWhile (\<lambda>p. \<not> stops env (fst p) (snd p)) (enumerate (Suc k) rest)"
  let ?D = "dropWhile (\<lambda>p. \<not> stops env (fst p) (snd p)) (enumerate (Suc k) rest)"
  have same: "d\<lparr>questions := pre @ q # rest\<rparr> = d"
  proof -
    have "d\<lparr>questions := questions d\<rparr> = d" by simp
    then show ?thesis by (simp only: Cons.prems(2))
  qed
  have stop: "stops env k q \<Longrightarrow> shuffle_loop env k (q # rest) (d, lg) = (d, lg @ [ShuffleError])
      \<Longrightarrow> ?case"
    by (simp add: same)
  have step: "\<And>q' d' lg'. \<not> stops env k q \<Longrightarrow> row_result env k q = q'
      \<Longrightarrow> d' = d\<lparr>questions := (pre @ [q']) @ rest\<rparr> \<Longrightarrow> q_id q' = q_id q
      \<Longrightarrow> shuffle_loop env k (q # rest) (d, lg)
          = shuffle_loop env (Suc k) rest (d', lg @ row_log env k q)
      \<Longrightarrow> ?case"
  proof -
    fix q' d' lg'
    assume st: "\<not> stops env k q" and rr: "row_result env k q = q'"
      and d': "d' = d\<lparr>questions := (pre @ [q']) @ rest\<rparr>" and i: "q_id q' = q_id q"
      and l: "shuffle_loop env k (q # rest) (d, lg)
          = shuffle_loop env (Suc k) rest (d', lg @ row_log env k q)"
    have dist: "distinct (map q_id ((pre @ [q']) @ rest))" using Cons.prems(1) i by simp
    have qs: "questions d' = (pre @ [q']) @ rest" by (simp add: d')
    have IH: "shuffle_loop env (Suc k) rest (d', lg @ row_log env k q)
      = (d'\<lparr>questions := (pre @ [q'])
            @ map (\<lambda>p. row_result env (fst p) (snd p)) ?T @ map snd ?D\<rparr>,
         (lg @ row_log env k q) @ concat (map (\<lambda>p. row_log env (fst p) (snd p)) ?T)
           @ (if ?D = [] then [] else [ShuffleError]))"
      using dist qs by (rule Cons.IH)
    show ?case
      unfolding l IH by (simp add: st rr d')
  qed
  show ?case
  proof (cases "shuffle_question (random env k) q")
    case (Skip e)
    show ?thesis
    proof (rule step)
      show "\<not> stops env k q" by (simp add: stops_def Skip)
      show "row_result env k q = q" by (simp add: row_result_def Skip)
      show "d = d\<lparr>questions := (pre @ [q]) @ rest\<rparr>" using same by simp
      show "q_id q = q_id q" ..
      show "shuffle_loop env k (q # rest) (d, lg)
          = shuffle_loop env (Suc k) rest (d, lg @ row_log env k q)"
        by (simp add: Skip row_log_def)
    qed
  next
    case Raise
    show ?thesis
      by (rule stop) (simp_all add: stops_def Raise)
  next
    case (Rewrite s)
    show ?thesis
    proof (cases "update_fails env (q_id q)")
      case True
      show ?thesis by (rule stop) (simp_all add: stops_def Rewrite True)
    next
      case False
      let ?q' = "q\<lparr>options := JsonString s, correct_index := 0\<rparr>"
      let ?d' = "d\<lparr>questions := update_where (\<lambda>r. q_id r = q_id q)
                     (\<lambda>r. r\<lparr>options := JsonString s, correct_index := 0\<rparr>) (questions d)\<rparr>"
      show ?thesis
      proof (rule step)
        show "\<not> stops env k q" by (simp add: stops_def Rewrite False)
        show "row_result env k q = ?q'" by (simp add: row_result_def Rewrite False)
        show "?d' = d\<lparr>questions := (pre @ [?q']) @ rest\<rparr>"
          by (simp add: Cons.prems(2) update_question_mid[OF Cons.prems(1)])
        show "q_id ?q' = q_id q" by simp
        show "shuffle_loop env k (q # rest) (d, lg)
          = shuffle_loop env (Suc k) rest (?d', lg @ row_log env k q)"
          by (simp add: Rewrite False row_log_def Let_def)
      qed
    qed
  next
    case (Update s n)
    show ?thesis
    proof (cases "update_fails env (q_id q)")
      case True
      show ?thesis by (rule stop) (simp_all add: stops_def Update True)
    next
      case False
      let ?q' = "q\<lparr>options := JsonArray s, correct_index := n\<rparr>"
      let ?d' = "updateQuestionOptions (q_id q) s n d"
      show ?thesis
      proof (rule step)
        show "\<not> stops env k q" by (simp add: stops_def Update False)
        show "row_result env k q = ?q'" by (simp add: row_result_def Update False)
        show "?d' = d\<lparr>questions := (pre @ [?q']) @ rest\<rparr>"
          using updateQuestionOptions_mid[OF Cons.prems] by simp
        show "q_id ?q' = q_id q" by simp
        show "shuffle_loop env k (q # rest) (d, lg)
          = shuffle_loop env (Suc k) rest (?d', lg @ row_log env k q)"
          by (simp add: Update False row_log_def Let_def)
      qed
    qed
  qed
qed

lemma reshuffleAll_run:
  assumes "distinct (map q_id (questions d))"
  shows "reshuffleAll env d =
     (d\<lparr>questions :=
          map (\<lambda>p. row_result env (fst p) (snd p))
            (takeWhile (\<lambda>p. \<not> stops env (fst p) (snd p)) (enumerate 0 (questions d)))
          @ map snd (dropWhile (\<lambda>p. \<not> stops env (fst p) (snd p)) (enumerate 0 (questions d)))\<rparr>,
      concat (map (\<lambda>p. row_log env (fst p) (snd p))
               (takeWhile (\<lambda>p. \<not> stops env (fst p) (snd p)) (enumerate 0 (questions d))))
        @ (if dropWhile (\<lambda>p. \<not> stops env (fst p) (snd p)) (enumerate 0 (questions d)) = []
           then [] else [ShuffleError]))"
  using shuffle_loop_run[of "[]" "questions d" d env 0 "[]"] assms
  by (simp add: reshuffleAll_def getAllQuestionsRaw_def)


lemma list_all2_enumerate_snd:
  "list_all2 (\<lambda>p q'. P (snd p) q') (enumerate n xs) ys = list_all2 P xs ys"
  by (induction xs arbitrary: n ys) (simp_all add: list_all2_Cons1)

lemma reshuffleAll_rows:
  assumes "distinct (map q_id (questions d))"
  shows "list_all2 (\<lambda>p q'. q' = snd p \<or> q' = row_result env (fst p) (snd p))
           (enumerate 0 (questions d)) (questions (fst (reshuffleAll env d)))"
proof -
  let ?P = "\<lambda>p. \<not> stops env (fst p) (snd p)"
  let ?E = "enumerate 0 (questions d)"
  let ?R = "\<lambda>p q'. q' = snd p \<or> q' = row_result env (fst p) (snd p)"
  have q: "questions (fst (reshuffleAll env d))
      = map (\<lambda>p. row_result env (fst p) (snd p)) (takeWhile ?P ?E) @ map snd (dropWhile ?P ?E)"
    by (simp add: reshuffleAll_run[OF assms])
  have a: "list_all2 ?R (takeWhile ?P ?E) (map (\<lambda>p. row_result env (fst p) (snd p)) (takeWhile ?P ?E))"
    by (simp add: list_all2_map2 list_all2_same)
  have b: "list_all2 ?R (dropWhile ?P ?E) (map snd (dropWhile ?P ?E))"
    by (simp add: list_all2_map2 list_all2_same)
  have "list_all2 ?R (takeWhile ?P ?E @ dropWhile ?P ?E)
          (map (\<lambda>p. row_result env (fst p) (snd p)) (takeWhile ?P ?E) @ map snd (dropWhile ?P ?E))"
    using a b by (rule list_all2_appendI)
  then show ?thesis by (simp only: q takeWhile_dropWhile_id)
qed

lemma reshuffleAll_reshuffled:
  assumes "distinct (map q_id (questions d))" "\<forall>k i. 0 \<le> random env k i \<and> random env k i < 1"
  shows "list_all2 reshuffled (questions d) (questions (fst (reshuffleAll env d)))"
proof -
  have "list_all2 (\<lambda>p q'. reshuffled (snd p) q')
           (enumerate 0 (questions d)) (questions (fst (reshuffleAll env d)))"
    using reshuffleAll_rows[OF assms(1), of env]
  proof (rule list_all2_mono)
    fix p q' assume a: "q' = snd p \<or> q' = row_result env (fst p) (snd p)"
    have "reshuffled (snd p) (row_result env (fst p) (snd p))"
      using assms(2) by (simp add: reshuffled_row_result)
    then show "reshuffled (snd p) q'"
      using a reshuffled_refl[of "snd p"] by blast
  qed
  then show ?thesis by (simp only: list_all2_enumerate_snd)
qed

lemma reshuffled_valid:
  assumes "reshuffled q q'" "valid_question q"
  shows "valid_question q'"
proof -
  from assms(2) obtain os where os: "options q = JsonArray os" "valid_options os (correct_index q)"
    by (cases "options q") (simp_all add: valid_question_def)
  from assms(1) os(1) obtain os' where os': "options q' = JsonArray os'" "mset os' = mset os"
    "js_nth os' (correct_index q') = js_nth os (correct_index q)"
    by (cases "options q'") (simp_all add: reshuffled_def)
  have len: "length os' = length os" using os'(2) by (rule mset_eq_length)
  have "js_nth os (correct_index q) \<noteq> None" using os(2) by (simp add: js_nth_def valid_options_def)
  then have "js_nth os' (correct_index q') \<noteq> None" using os'(3) by simp
  then have "0 \<le> correct_index q' \<and> correct_index q' < int (length os')"
    by (simp add: js_nth_def split: if_splits)
  then show ?thesis using os(2) len by (simp add: valid_question_def os'(1) valid_options_def)
qed

lemma store_valid_saveQuestion:
  "store_valid (snd (saveQuestion now k t os ci d)) = (store_valid d \<and> valid_options os ci)"
  by (auto simp: store_valid_def saveQuestion_def Let_def valid_question_def)

lemma store_valid_saveGenerated:
  "store_valid (saveGenerated now k cs d) = (store_valid d \<and> (\<forall>c \<in> set cs. valid_candidate c))"
  unfolding saveGenerated_def
  by (induction cs arbitrary: d) (auto simp: store_valid_saveQuestion valid_candidate_def)

lemma store_valid_reshuffleAll:
  assumes "distinct (map q_id (questions d))" "\<forall>k i. 0 \<le> random env k i \<and> random env k i < 1"
    "store_valid d"
  shows "store_valid (fst (reshuffleAll env d))"
  unfolding store_valid_def
proof
  fix q' assume "q' \<in> set (questions (fst (reshuffleAll env d)))"
  then obtain i where i: "i < length (questions (fst (reshuffleAll env d)))"
    "q' = questions (fst (reshuffleAll env d)) ! i"
    by (auto simp: in_set_conv_nth)
  note r = reshuffleAll_reshuffled[OF assms(1,2)]
  have "reshuffled (questions d ! i) q'"
    using list_all2_nthD2[OF r i(1)] i(2) by simp
  moreover have "questions d ! i \<in> set (questions d)"
    using list_all2_lengthD[OF r] i(1) by simp
  ultimately obtain q where "q \<in> set (questions d)" "reshuffled q q'" by blast
  moreover from this have "valid_question q" using assms(3) by (simp add: store_valid_def)
  ultimately show "valid_question q'" by (blast intro: reshuffled_valid)
qed

lemma reshuffleAll_quiet:
  "reshuffleAll quiet_env shuffle_db =
     (shuffle_db\<lparr>questions :=
        [(questions shuffle_db ! 0)\<lparr>options := JsonArray [''b'', ''c'', ''a''], correct_index := 2\<rparr>,
         (questions shuffle_db ! 1)\<lparr>options := JsonArray [''y'', ''x''], correct_index := 0\<rparr>]\<rparr>, [])"
  by (simp add: reshuffleAll_def getAllQuestionsRaw_def shuffle_db_def quiet_env_def
      shuffle_question_def fisherYates_def random_index_def js_nth_def indexOf_def
      updateQuestionOptions_def update_where_def Let_def eval_nat_numeral)






text \<open>
  C6. Let the question ids be distinct (the primary key) and every value of
  \<open>Math.random()\<close> lie in [0, 1). After \<open>reshuffleAll\<close> every stored question is, row by
  row, \<open>reshuffled\<close>: all columns but options and index are unchanged, the new options are
  a permutation of the old ones (same multiset of texts), and the new index points at the
  same text as the old one; this holds with or without duplicate texts. The options and
  the index are written by \<open>updateQuestionOptions\<close> in one update: every row of the given id
  carries both afterwards.
\<close>

theorem reshuffleAll_permutes:
  assumes "distinct (map q_id (questions d))"
    and "\<forall>k i. 0 \<le> random env k i \<and> random env k i < 1"
  shows "list_all2 reshuffled (questions d) (questions (fst (reshuffleAll env d)))
     \<and> (\<forall>q' \<in> set (questions (updateQuestionOptions ident opts correctIndex d)).
          q_id q' = ident \<longrightarrow> options q' = JsonArray opts \<and> correct_index q' = correctIndex)"
proof (intro conjI ballI impI)
  show "list_all2 reshuffled (questions d) (questions (fst (reshuffleAll env d)))"
    by (rule reshuffleAll_reshuffled[OF assms])
next
  fix q' assume "q' \<in> set (questions (updateQuestionOptions ident opts correctIndex d))"
  then have "q' \<in> (\<lambda>r. if q_id r = ident
      then r\<lparr>options := JsonArray opts, correct_index := correctIndex\<rparr> else r) ` set (questions d)"
    by (simp add: updateQuestionOptions_def update_where_def)
  then obtain r where r: "q' = (if q_id r = ident
      then r\<lparr>options := JsonArray opts, correct_index := correctIndex\<rparr> else r)"
    by blast
  assume i: "q_id q' = ident"
  have "q_id r = ident" using r i by (cases "q_id r = ident") simp_all
  then show "options q' = JsonArray opts" "correct_index q' = correctIndex"
    using r by simp_all
qed

theorem reshuffleAll_permutes_witness:
  "distinct (map q_id (questions shuffle_db))
   \<and> (\<forall>k i. 0 \<le> random quiet_env k i \<and> random quiet_env k i < 1)
   \<and> list_all2 reshuffled (questions shuffle_db) (questions (fst (reshuffleAll quiet_env shuffle_db)))
   \<and> map options (questions (fst (reshuffleAll quiet_env shuffle_db)))
       = [JsonArray [''b'', ''c'', ''a''], JsonArray [''y'', ''x'']]
   \<and> map correct_index (questions (fst (reshuffleAll quiet_env shuffle_db))) = [2, 0]"
proof -
  have h1: "distinct (map q_id (questions shuffle_db))" by (simp add: shuffle_db_def)
  have h2: "\<forall>k i. 0 \<le> random quiet_env k i \<and> random quiet_env k i < 1"
    by (simp add: quiet_env_def)
  from reshuffleAll_permutes[OF h1 h2]
  have "list_all2 reshuffled (questions shuffle_db) (questions (fst (reshuffleAll quiet_env shuffle_db)))"
    by blast
  then show ?thesis using h1 h2 by (simp add: reshuffleAll_quiet)
qed




text \<open>
  An exception of the update itself is caught only outside the loop: when the update of
  question 1 throws, question 2 is not processed either.
\<close>

lemma reshuffleAll_update_failure_stops:
  "reshuffleAll update_fail_env shuffle_db = (shuffle_db, [ShuffleError])"
  by (simp add: reshuffleAll_def getAllQuestionsRaw_def shuffle_db_def update_fail_env_def
      shuffle_question_def fisherYates_def random_index_def js_nth_def indexOf_def
      updateQuestionOptions_def update_where_def Let_def eval_nat_numeral)

text \<open>
  So is the TypeError on stored options that are no array: with the text \<open>null\<close> stored
  for question 2, question 1 is shuffled and keeps its update, and questions 2 and 3 are
  left as they are, question 3 without having been looked at.
\<close>

lemma reshuffleAll_null_stops:
  "map options (questions (fst (reshuffleAll quiet_env null_db)))
     = [JsonArray [''b'', ''c'', ''a''], JsonOther, JsonArray [''x'', ''y'']]
   \<and> map correct_index (questions (fst (reshuffleAll quiet_env null_db))) = [2, 0, 1]
   \<and> snd (reshuffleAll quiet_env null_db) = [ShuffleError]"
  by (simp add: reshuffleAll_def getAllQuestionsRaw_def null_db_def quiet_env_def
      shuffle_question_def fisherYates_def random_index_def js_nth_def indexOf_def
      updateQuestionOptions_def update_where_def Let_def eval_nat_numeral)

section \<open>Structural validity of stored questions\<close>

text \<open>
  C7 (as amended). The persisting caller stores every candidate as it is: after
  \<open>saveGenerated\<close> all stored questions are structurally valid (at least two options,
  index within the options) exactly when they were before and every candidate is valid.
  The later mutation of option order preserves validity: if all stored questions are
  valid, they are after \<open>reshuffleAll\<close>, each with as many options as before.
\<close>

theorem store_valid_preserved:
  "(store_valid (saveGenerated now studyKey cs d)
      \<longleftrightarrow> store_valid d \<and> (\<forall>c \<in> set cs. valid_candidate c))
   \<and> (distinct (map q_id (questions d)) \<and> (\<forall>k i. 0 \<le> random env k i \<and> random env k i < 1)
        \<and> store_valid d
      \<longrightarrow> store_valid (fst (reshuffleAll env d))
          \<and> list_all2 (\<lambda>q q'. case (options q, options q') of
                         (JsonArray os, JsonArray os') \<Rightarrow> length os' = length os
                       | _ \<Rightarrow> False)
               (questions d) (questions (fst (reshuffleAll env d))))"
proof (intro conjI impI)
  show "store_valid (saveGenerated now studyKey cs d)
      \<longleftrightarrow> store_valid d \<and> (\<forall>c \<in> set cs. valid_candidate c)"
    by (rule store_valid_saveGenerated)
next
  assume a: "distinct (map q_id (questions d)) \<and> (\<forall>k i. 0 \<le> random env k i \<and> random env k i < 1)
        \<and> store_valid d"
  then show "store_valid (fst (reshuffleAll env d))"
    by (simp add: store_valid_reshuffleAll)
  have r: "list_all2 reshuffled (questions d) (questions (fst (reshuffleAll env d)))"
    using a by (simp add: reshuffleAll_reshuffled)
  have v: "\<forall>q \<in> set (questions d). valid_question q" using a by (simp add: store_valid_def)
  show "list_all2 (\<lambda>q q'. case (options q, options q') of
                         (JsonArray os, JsonArray os') \<Rightarrow> length os' = length os
                       | _ \<Rightarrow> False)
               (questions d) (questions (fst (reshuffleAll env d)))"
  proof -
    have c: "list_all2 (\<lambda>q q'. valid_question q \<and> reshuffled q q')
               (questions d) (questions (fst (reshuffleAll env d)))"
      using r v by (simp add: list_all2_conv_all_nth)
    show ?thesis
      using c
    proof (rule list_all2_mono)
      fix q q' assume "valid_question q \<and> reshuffled q q'"
      then show "case (options q, options q') of
                         (JsonArray os, JsonArray os') \<Rightarrow> length os' = length os
                       | _ \<Rightarrow> False"
        by (cases "options q"; cases "options q'")
           (auto simp: valid_question_def reshuffled_def dest: mset_eq_length)
    qed
  qed
qed

theorem store_valid_preserved_witness:
  "store_valid shuffle_db
   \<and> list_all valid_candidate sample_drafts
   \<and> store_valid (saveGenerated 5 ''physics'' sample_drafts shuffle_db)
   \<and> distinct (map q_id (questions shuffle_db))
   \<and> (\<forall>k i. 0 \<le> random quiet_env k i \<and> random quiet_env k i < 1)
   \<and> store_valid (fst (reshuffleAll quiet_env shuffle_db))"
proof -
  have v: "store_valid shuffle_db"
    by (simp add: store_valid_def shuffle_db_def valid_question_def valid_options_def)
  have c: "\<forall>c \<in> set sample_drafts. valid_candidate c"
    by (simp add: sample_drafts_def valid_candidate_def valid_options_def)
  have h1: "distinct (map q_id (questions shuffle_db))" by (simp add: shuffle_db_def)
  have h2: "\<forall>k i. 0 \<le> random quiet_env k i \<and> random quiet_env k i < 1"
    by (simp add: quiet_env_def)
  note t = store_valid_preserved[of 5 "''physics''" sample_drafts shuffle_db quiet_env]
  have a: "store_valid (saveGenerated 5 ''physics'' sample_drafts shuffle_db)"
    using t v c by blast
  have b: "store_valid (fst (reshuffleAll quiet_env shuffle_db))"
    using t v h1 h2 by blast
  show ?thesis using v c a b h1 h2 by (simp add: list_all_iff)
qed

text \<open>
  C7 as stated fails: the caller rejects nothing. A candidate without options and with
  index 3 is stored as it is, and the store then holds a question that violates the
  invariant.
\<close>

theorem saveGenerated_counterexample:
  "map options (questions (saveGenerated 5 ''physics'' [bad_candidate] empty_db)) = [JsonArray []]
   \<and> map correct_index (questions (saveGenerated 5 ''physics'' [bad_candidate] empty_db)) = [3]
   \<and> \<not> store_valid (saveGenerated 5 ''physics'' [bad_candidate] empty_db)"
  by (simp add: saveGenerated_def saveQuestion_def bad_candidate_def empty_db_def store_valid_def
      valid_question_def valid_options_def)

section \<open>Deleting questions\<close>

lemma deleteQuestion_cascades:
  "v \<in> set (votes (deleteQuestion questionId d)) \<Longrightarrow> v_question_id v \<noteq> questionId"
  by (simp add: deleteQuestion_def)

text \<open>
  C9. Votes cascade on deletion of their question. \<open>deleteQuestion\<close> does remove the
  votes of the question (lemma \<open>deleteQuestion_cascades\<close>), but \<open>clearQuestions\<close> deletes
  from \<open>questions\<close> only: clearing the key \<open>physics\<close> of \<open>orphan_db\<close> removes question 1
  and leaves the vote row keyed to it in the store.
\<close>

theorem clearQuestions_leaves_votes:
  "questions (clearQuestions ''physics'' orphan_db) = []
   \<and> votes (clearQuestions ''physics'' orphan_db)
       = [\<lparr>v_user_id = 7, v_question_id = 1, vote = 1\<rparr>]"
  by (simp add: clearQuestions_def orphan_db_def)


end
